theory Spec2Isabelle
  imports Main
begin

section \<open>Strings as the component sees them\<close>

text \<open>
  A JavaScript string is a sequence of UTF-16 code units. The model covers the code units
  below 256, one \<open>char\<close> each (the Latin-1 range), which is where every character class
  used by the component's regular expressions and by \<open>trim\<close> draws its members, apart
  from white-space characters above U+00FF.
\<close>

definition code_unit :: "char \<Rightarrow> nat" where
  "code_unit c = of_char c"

text \<open>White space and line terminators of ECMAScript (\<open>\s\<close>, \<open>trim\<close>) below 256.\<close>

definition is_space :: "char \<Rightarrow> bool" where
  "is_space c \<longleftrightarrow> code_unit c \<in> {9, 10, 11, 12, 13, 32, 160}"

definition is_line_terminator :: "char \<Rightarrow> bool" where
  "is_line_terminator c \<longleftrightarrow> code_unit c \<in> {10, 13}"

definition is_upper :: "char \<Rightarrow> bool" where
  "is_upper c \<longleftrightarrow> 65 \<le> code_unit c \<and> code_unit c \<le> 90"

definition is_lower :: "char \<Rightarrow> bool" where
  "is_lower c \<longleftrightarrow> 97 \<le> code_unit c \<and> code_unit c \<le> 122"

definition is_digit :: "char \<Rightarrow> bool" where
  "is_digit c \<longleftrightarrow> 48 \<le> code_unit c \<and> code_unit c \<le> 57"

text \<open>The class \<open>\w\<close>, that is \<open>[A-Za-z0-9_]\<close>.\<close>

definition is_word :: "char \<Rightarrow> bool" where
  "is_word c \<longleftrightarrow> is_upper c \<or> is_lower c \<or> is_digit c \<or> c = CHR ''_''"

text \<open>The class \<open>[a-zA-Z0-9._-]\<close> of the file name directive.\<close>

definition is_name_char :: "char \<Rightarrow> bool" where
  "is_name_char c \<longleftrightarrow>
     is_lower c \<or> is_upper c \<or> is_digit c \<or> c = CHR ''.'' \<or> c = CHR ''_'' \<or> c = CHR ''-''"

text \<open>
  \<open>String.prototype.toLowerCase\<close> on one code unit: the ASCII capitals and the Latin-1
  capitals U+00C0..U+00DE (without the multiplication sign U+00D7) move up by 32.
\<close>

definition lower_char :: "char \<Rightarrow> char" where
  "lower_char c =
     (if is_upper c \<or> (192 \<le> code_unit c \<and> code_unit c \<le> 222 \<and> code_unit c \<noteq> 215)
      then char_of (code_unit c + 32) else c)"

definition toLowerCase :: "string \<Rightarrow> string" where
  "toLowerCase s = map lower_char s"

text \<open>
  Case-insensitive comparison with a pattern letter under the \<open>i\<close> flag without the
  \<open>u\<close> flag: both sides are canonicalised by upper-casing, and a character outside ASCII
  never canonicalises into ASCII, so against an ASCII pattern only ASCII folding counts.
\<close>

definition fold_ascii :: "char \<Rightarrow> char" where
  "fold_ascii c = (if is_upper c then char_of (code_unit c + 32) else c)"

definition startsWith :: "string \<Rightarrow> string \<Rightarrow> bool" where
  "startsWith s p \<longleftrightarrow> take (length p) s = p"

definition startsWith_ci :: "string \<Rightarrow> string \<Rightarrow> bool" where
  "startsWith_ci s p \<longleftrightarrow> map fold_ascii (take (length p) s) = map fold_ascii p"

definition trim :: "string \<Rightarrow> string" where
  "trim s = rev (dropWhile is_space (rev (dropWhile is_space s)))"

text \<open>\<open>s.split('\n')[0]\<close>: the text before the first line feed (all of it when there is none).\<close>

definition first_line :: "string \<Rightarrow> string" where
  "first_line s = takeWhile (\<lambda>c. c \<noteq> CHR 0x0A) s"

text \<open>
  \<open>String.prototype.match\<close> with a regular expression that has no \<open>g\<close> flag: the match
  at the leftmost position where the expression matches. The first argument is the
  expression anchored at the start of its input.
\<close>

fun leftmost :: "(string \<Rightarrow> 'a option) \<Rightarrow> string \<Rightarrow> 'a option" where
  "leftmost m [] = m []"
| "leftmost m (c # cs) = (case m (c # cs) of Some r \<Rightarrow> Some r | None \<Rightarrow> leftmost m cs)"

section \<open>Values a JavaScript expression of type \<open>any\<close> may yield here\<close>

text \<open>
  A property read on an object literal finds the literal's own properties and then those
  of \<open>Object.prototype\<close>. \<open>JBuiltin k\<close> is the object found under the inherited name
  \<open>k\<close> (a function for every name but \<open>__proto__\<close>, which yields \<open>Object.prototype\<close>
  itself); all of them are truthy and none is a string.
\<close>

datatype js_value = JString string | JBuiltin string

definition Object_prototype_names :: "string list" where
  "Object_prototype_names =
     [''constructor'', ''__defineGetter__'', ''__defineSetter__'', ''hasOwnProperty'',
      ''__lookupGetter__'', ''__lookupSetter__'', ''isPrototypeOf'', ''propertyIsEnumerable'',
      ''toString'', ''valueOf'', ''__proto__'', ''toLocaleString'']"

section \<open>File names of code blocks\<close>

text \<open>
  The expression \<open>/\/\/\s*filename:\s*([a-zA-Z0-9._-]+)/i\<close> anchored at the start of its
  input, yielding capture group 1. Neither \<open>\s*\<close> can give a character back to what
  follows it (no white space is an \<open>f\<close> or a name character), so the greedy match is the
  only one.
\<close>

definition filename_directive_at :: "string \<Rightarrow> string option" where
  "filename_directive_at s =
     (if startsWith s ''//'' then
        (let r = dropWhile is_space (drop 2 s) in
         if startsWith_ci r ''filename:'' then
           (let name = takeWhile is_name_char (dropWhile is_space (drop 9 r)) in
            if name \<noteq> [] then Some name else None)
         else None)
      else None)"

text \<open>The object literal \<open>extMap\<close>: its own properties.\<close>

definition extMap :: "string \<rightharpoonup> string" where
  "extMap = [''html'' \<mapsto> ''index.html'', ''js'' \<mapsto> ''script.js'', ''css'' \<mapsto> ''style.css'']"

text \<open>The property read \<open>extMap[k]\<close>; \<open>None\<close> is \<open>undefined\<close>.\<close>

definition extMap_get :: "string \<Rightarrow> js_value option" where
  "extMap_get k =
     (case extMap k of
        Some v \<Rightarrow> Some (JString v)
      | None \<Rightarrow> if k \<in> set Object_prototype_names then Some (JBuiltin k) else None)"

text \<open>
  \<open>getFilenameFromCode(code, lang)\<close>. Every value \<open>extMap_get\<close> finds is truthy (the
  own properties are non-empty strings), so \<open>||\<close> falls through on \<open>undefined\<close> only.
\<close>

definition getFilenameFromCode :: "string \<Rightarrow> string \<Rightarrow> js_value" where
  "getFilenameFromCode code lang =
     (case leftmost filename_directive_at (first_line code) of
        Some name \<Rightarrow> JString name
      | None \<Rightarrow>
          (case extMap_get (toLowerCase lang) of
             Some v \<Rightarrow> v
           | None \<Rightarrow> JString (''file.'' @ (if lang = [] then ''txt'' else lang))))"

section \<open>Generation directives\<close>

text \<open>
  What follows the literal prefix in \<open>/\[GENERATE_IMAGE:\s*(.*?)\]/\<close>, anchored: the
  capture and the text after the match. The lazy \<open>.*?\<close> stops at the first \<open>]\<close> and
  cannot cross a line terminator; giving back white space from the greedy \<open>\s*\<close> never
  rescues a failed attempt, since \<open>.\<close> would have to cross the same characters.
\<close>

definition directive_tail :: "string \<Rightarrow> (string \<times> string) option" where
  "directive_tail r =
     (let r1 = dropWhile is_space r;
          body = takeWhile (\<lambda>c. c \<noteq> CHR '']'') r1;
          rest = dropWhile (\<lambda>c. c \<noteq> CHR '']'') r1
      in if rest \<noteq> [] \<and> \<not> (\<exists>c \<in> set body. is_line_terminator c)
         then Some (body, tl rest) else None)"

text \<open>\<open>/\[GENERATE_IMAGE:\s*(.*?)\]/\<close> anchored at the start of its input.\<close>

definition image_directive_at :: "string \<Rightarrow> (string \<times> string) option" where
  "image_directive_at s =
     (if startsWith s ''[GENERATE_IMAGE:'' then directive_tail (drop 16 s) else None)"

text \<open>\<open>/\[GENERATE_(IMAGE|VIDEO):\s*.*?\]/\<close> anchored at the start of its input.\<close>

definition generate_directive_at :: "string \<Rightarrow> (string \<times> string) option" where
  "generate_directive_at s =
     (if startsWith s ''[GENERATE_IMAGE:'' \<or> startsWith s ''[GENERATE_VIDEO:''
      then directive_tail (drop 16 s) else None)"

lemma directive_tail_shorter:
  assumes "directive_tail r = Some (b, rest)"
  shows "length rest \<le> length r"
proof -
  let ?r1 = "dropWhile is_space r"
  let ?d = "dropWhile (\<lambda>c. c \<noteq> CHR '']'') ?r1"
  from assms have "rest = tl ?d"
    by (auto simp: directive_tail_def Let_def split: if_splits)
  then have "length rest \<le> length ?d" by simp
  also have "\<dots> \<le> length ?r1" by (rule length_dropWhile_le)
  also have "\<dots> \<le> length r" by (rule length_dropWhile_le)
  finally show ?thesis .
qed

lemma generate_directive_at_shorter:
  assumes "generate_directive_at s = Some (b, rest)"
  shows "length rest < length s"
proof -
  from assms have st: "startsWith s ''[GENERATE_IMAGE:'' \<or> startsWith s ''[GENERATE_VIDEO:''"
    and dt: "directive_tail (drop 16 s) = Some (b, rest)"
    by (auto simp: generate_directive_at_def split: if_splits)
  from st have "16 \<le> length s"
    by (auto simp: startsWith_def dest!: arg_cong [where f = length])
  moreover from dt have "length rest \<le> length s - 16"
    using directive_tail_shorter by fastforce
  ultimately show ?thesis by linarith
qed

text \<open>
  \<open>text.replace(/\[GENERATE_(IMAGE|VIDEO):\s*.*?\]/g, '')\<close>: one pass from the left, each
  match removed and the scan resumed right after it.
\<close>

function strip_directives :: "string \<Rightarrow> string" where
  "strip_directives [] = []"
| "strip_directives (c # cs) =
     (case generate_directive_at (c # cs) of
        Some (b, rest) \<Rightarrow> strip_directives rest
      | None \<Rightarrow> c # strip_directives cs)"
  by pat_completeness auto
termination
  by (relation "measure length") (auto dest: generate_directive_at_shorter)

text \<open>
  A generation directive in the words of the specification, \<open>[GENERATE_IMAGE: ...]\<close> or
  \<open>[GENERATE_VIDEO: ...]\<close>, to compare the scan with: the tag, then text up to the first
  closing bracket, which past its leading white space holds no line break.
\<close>

definition is_directive :: "string \<Rightarrow> bool" where
  "is_directive d \<longleftrightarrow>
     (startsWith d ''[GENERATE_IMAGE:'' \<or> startsWith d ''[GENERATE_VIDEO:'')
     \<and> (case rev (drop 16 d) of
          [] \<Rightarrow> False
        | z # rr \<Rightarrow>
            z = CHR '']'' \<and> CHR '']'' \<notin> set rr
            \<and> \<not> (\<exists>c \<in> set (dropWhile is_space (rev rr)). is_line_terminator c))"

text \<open>The text begins with a directive.\<close>

definition starts_with_directive :: "string \<Rightarrow> bool" where
  "starts_with_directive s \<longleftrightarrow> (\<exists>n \<in> set [0..<Suc (length s)]. is_directive (take n s))"

section \<open>Code fences\<close>

definition fence :: string where
  "fence = [CHR 0x60, CHR 0x60, CHR 0x60]"

text \<open>The first occurrence of the fence: the text before it and the text after it.\<close>

fun find_fence :: "string \<Rightarrow> (string \<times> string) option" where
  "find_fence [] = None"
| "find_fence (c # cs) =
     (if startsWith (c # cs) fence then Some ([], drop 3 (c # cs))
      else map_option (\<lambda>(a, b). (c # a, b)) (find_fence cs))"

lemma find_fence_shorter:
  "find_fence s = Some (a, b) \<Longrightarrow> length a + 3 + length b = length s"
proof (induction s arbitrary: a b)
  case Nil
  then show ?case by simp
next
  case (Cons c cs)
  show ?case
  proof (cases "startsWith (c # cs) fence")
    case True
    then have "3 \<le> length (c # cs)"
      by (auto simp: startsWith_def fence_def dest!: arg_cong [where f = length])
    with True Cons.prems show ?thesis by auto
  next
    case False
    with Cons.prems obtain a' where "find_fence cs = Some (a', b)" and "a = c # a'"
      by auto
    with Cons.IH show ?thesis by simp
  qed
qed

text \<open>
  \<open>s.split(/(```[\s\S]*?```)/g)\<close>: the texts between the matches at the even indices and
  the matches themselves (the capture group) at the odd ones. A match starts at the first
  fence and, being lazy, ends with the next fence after it; where the first fence has no
  later fence to close it, no later position matches either and the rest is one part.
\<close>

function split_fences :: "string \<Rightarrow> string list" where
  "split_fences s =
     (case find_fence s of
        None \<Rightarrow> [s]
      | Some (pre, after) \<Rightarrow>
          (case find_fence after of
             None \<Rightarrow> [s]
           | Some (inner, rest) \<Rightarrow> pre # (fence @ inner @ fence) # split_fences rest))"
  by pat_completeness auto
termination
  by (relation "measure length") (auto dest!: find_fence_shorter)

declare split_fences.simps [simp del]

text \<open>
  \<open>/```(\w+)?\n?([\s\S]*?)```/\<close> anchored at the start of its input: the language tag
  (\<open>None\<close> when the group did not take part) and the content. No fence character is a
  word character or a line feed, so shortening the greedy groups never finds a closing
  fence that the greedy attempt missed.
\<close>

definition code_fence_at :: "string \<Rightarrow> (string option \<times> string) option" where
  "code_fence_at s =
     (if startsWith s fence then
        (let r = drop 3 s;
             lang = takeWhile is_word r;
             r1 = dropWhile is_word r;
             r2 = (if startsWith r1 [CHR 0x0A] then drop 1 r1 else r1)
         in case find_fence r2 of
              Some (content, rest) \<Rightarrow> Some (if lang = [] then None else Some lang, content)
            | None \<Rightarrow> None)
      else None)"

text \<open>\<open>part.match(/```(\w+)?\n?([\s\S]*?)```/)\<close>.\<close>

definition codeMatch :: "string \<Rightarrow> (string option \<times> string) option" where
  "codeMatch part = leftmost code_fence_at part"

section \<open>Clock readings as identifiers\<close>

text \<open>\<open>Date.now().toString()\<close>: the decimal digits of a millisecond count.\<close>

definition digit_char :: "nat \<Rightarrow> char" where
  "digit_char d = char_of (48 + d)"

fun toString :: "nat \<Rightarrow> string" where
  "toString n = (if n < 10 then [digit_char n] else toString (n div 10) @ [digit_char (n mod 10)])"

declare toString.simps [simp del]

section \<open>Data model\<close>

datatype role = User | Model

type_synonym grounding = string

text \<open>
  A \<open>Message\<close>. The type is declared in \<open>types.ts\<close>, which is not among the sources;
  the fields are the ones the component reads and writes. The field \<open>msg_type\<close> is the
  source's \<open>type\<close> (\<open>'image'\<close> or \<open>'text'\<close>); an optional field that is absent is
  \<open>None\<close>. Time stamps are millisecond counts.
\<close>

record message =
  msg_id :: string
  msg_role :: role
  msg_text :: string
  msg_timestamp :: nat
  mediaUrl :: "string option"
  msg_type :: "string option"
  groundingChunks :: "grounding list option"

record attachment =
  att_file :: string
  preview :: string
  base64 :: string
  att_type :: string

datatype note_source = FromBot | FromUser

text \<open>A \<open>PanoNote\<close>; a note read back from storage may lack its \<open>source\<close>.\<close>

record pano_note =
  note_id :: string
  note_text :: string
  note_timestamp :: nat
  source :: "note_source option"

text \<open>A \<open>Bot\<close>, also of \<open>types.ts\<close>, by the fields the component uses.\<close>

record bot =
  bot_id :: string
  bot_name :: string
  hasImageGen :: bool

text \<open>The chat session, as \<open>createBotChat(bot, history, selectedModel)\<close> made it.\<close>

record chat =
  chat_bot :: bot
  chat_history :: "(role \<times> string) list"
  chat_model :: string

datatype media_kind = ImageGen | VideoGen

datatype panel_tab = Files | Images | Pano

text \<open>
  The component's state that the modelled handlers and effects read or write, with the
  browser's \<open>localStorage\<close> beside it. \<open>route_id\<close> is the \<open>id\<close> of \<open>useParams\<close>.
\<close>

record state =
  route_id :: "string option"
  bots :: "bot list"
  messages :: "message list"
  input :: string
  attachments :: "attachment list"
  isLoading :: bool
  isGeneratingMedia :: "media_kind option"
  chatSession :: "chat option"
  selectedModel :: string
  expandedBlocks :: "string set"
  showResetModal :: bool
  isProjectPanelOpen :: bool
  activePanelTab :: panel_tab
  manualNoteText :: string
  panoNotes :: "pano_note list"
  localStorage :: "string \<rightharpoonup> string"

text \<open>\<open>bots.find(b => b.id === id)\<close>.\<close>

definition current_bot :: "state \<Rightarrow> bot option" where
  "current_bot st =
     (case route_id st of None \<Rightarrow> None | Some i \<Rightarrow> find (\<lambda>b. bot_id b = i) (bots st))"

section \<open>Storage keys and the JSON codec\<close>

text \<open>An identifier inside a template literal; \<open>undefined\<close> prints as its name.\<close>

definition template_id :: "string option \<Rightarrow> string" where
  "template_id i = (case i of None \<Rightarrow> ''undefined'' | Some v \<Rightarrow> v)"

definition CHAT_STORAGE_KEY :: "string option \<Rightarrow> string" where
  "CHAT_STORAGE_KEY i = ''geminihub_chat_history_'' @ template_id i"

definition MODEL_STORAGE_KEY :: "string option \<Rightarrow> string" where
  "MODEL_STORAGE_KEY i = ''geminihub_selected_model_'' @ template_id i"

definition PANO_STORAGE_KEY :: "string option \<Rightarrow> string" where
  "PANO_STORAGE_KEY i = ''geminihub_pano_'' @ template_id i"

text \<open>
  \<open>localStorage.getItem(k)\<close> under a truthiness test: \<open>null\<close> and the empty string both
  take the else branch.
\<close>

definition getItem_truthy :: "(string \<rightharpoonup> string) \<Rightarrow> string \<Rightarrow> string option" where
  "getItem_truthy ls k = (case ls k of None \<Rightarrow> None | Some v \<Rightarrow> if v = [] then None else Some v)"

text \<open>
  \<open>JSON.stringify\<close> and \<open>JSON.parse\<close> are the platform's. \<open>parse_messages s\<close> stands
  for \<open>JSON.parse(s).map(m => ({...m, timestamp: new Date(m.timestamp)}))\<close> and
  \<open>parse_notes s\<close> for the same expression on notes: \<open>None\<close> when it throws (a syntax
  error, or a parsed value that is no array of objects), the revived list otherwise.
\<close>

record json_codec =
  stringify_messages :: "message list \<Rightarrow> string"
  parse_messages :: "string \<Rightarrow> message list option"
  parse_notes :: "string \<Rightarrow> pano_note list option"

section \<open>State initialisers and effects\<close>

text \<open>The initialiser of \<open>messages\<close> (source lines 86 to 94).\<close>

definition initial_messages :: "json_codec \<Rightarrow> (string \<rightharpoonup> string) \<Rightarrow> string option \<Rightarrow> message list" where
  "initial_messages J ls i =
     (case getItem_truthy ls (CHAT_STORAGE_KEY i) of
        Some saved \<Rightarrow> (case parse_messages J saved of Some ms \<Rightarrow> ms | None \<Rightarrow> [])
      | None \<Rightarrow> [])"

text \<open>The initialiser of \<open>panoNotes\<close> (lines 123 to 135), with \<open>source: s.source || 'bot'\<close>.\<close>

definition initial_panoNotes :: "json_codec \<Rightarrow> (string \<rightharpoonup> string) \<Rightarrow> string option \<Rightarrow> pano_note list" where
  "initial_panoNotes J ls i =
     (case getItem_truthy ls (PANO_STORAGE_KEY i) of
        Some saved \<Rightarrow>
          (case parse_notes J saved of
             Some ns \<Rightarrow>
               map (\<lambda>n. n\<lparr>source := Some (case source n of Some x \<Rightarrow> x | None \<Rightarrow> FromBot)\<rparr>) ns
           | None \<Rightarrow> [])
      | None \<Rightarrow> [])"

definition init_message :: "bot \<Rightarrow> nat \<Rightarrow> message" where
  "init_message b now =
     \<lparr>msg_id = ''init'', msg_role = Model,
      msg_text = ''Session initialized for '' @ bot_name b @ ''.'',
      msg_timestamp = now, mediaUrl = None, msg_type = None, groundingChunks = None\<rparr>"

text \<open>
  The effect on \<open>[id, bot]\<close> (lines 139 to 158), run after the first render and after
  every render in which the identifier or the bot changed. \<open>now\<close> is the clock.
\<close>

definition rehydrate_effect :: "json_codec \<Rightarrow> nat \<Rightarrow> state \<Rightarrow> state" where
  "rehydrate_effect J now st =
     (case current_bot st of
        None \<Rightarrow> st
      | Some b \<Rightarrow>
          st\<lparr>messages :=
               (case getItem_truthy (localStorage st) (CHAT_STORAGE_KEY (route_id st)) of
                  Some savedChat \<Rightarrow>
                    (case parse_messages J savedChat of
                       Some ms \<Rightarrow> ms
                     | None \<Rightarrow> [init_message b now])
                | None \<Rightarrow> [init_message b now]),
             panoNotes :=
               (case getItem_truthy (localStorage st) (PANO_STORAGE_KEY (route_id st)) of
                  Some savedPano \<Rightarrow>
                    (case parse_notes J savedPano of
                       Some ns \<Rightarrow> ns
                     | None \<Rightarrow> panoNotes st)
                | None \<Rightarrow> panoNotes st),
             selectedModel :=
               (case getItem_truthy (localStorage st) (MODEL_STORAGE_KEY (route_id st)) of
                  Some savedModel \<Rightarrow> savedModel
                | None \<Rightarrow> selectedModel st)\<rparr>)"

text \<open>
  The effect on \<open>[messages, id]\<close> (lines 207 to 212). \<open>accepted\<close> tells whether the
  browser takes the write; \<open>setItem\<close> throws otherwise and the exception is swallowed.
\<close>

definition persist_messages_effect :: "json_codec \<Rightarrow> bool \<Rightarrow> state \<Rightarrow> state" where
  "persist_messages_effect J accepted st =
     (if length (messages st) > 0 \<and> accepted
      then st\<lparr>localStorage :=
                (localStorage st)(CHAT_STORAGE_KEY (route_id st) \<mapsto> stringify_messages J (messages st))\<rparr>
      else st)"

text \<open>The confirm button of the reset dialogue (line 516).\<close>

definition reset_confirm :: "state \<Rightarrow> state" where
  "reset_confirm st =
     st\<lparr>messages := [],
        localStorage := (localStorage st)(CHAT_STORAGE_KEY (route_id st) := None),
        showResetModal := False\<rparr>"

section \<open>Notes\<close>

text \<open>
  \<open>handleSaveToPano(text)\<close>; \<open>now_id\<close> is the reading of \<open>Date.now()\<close> and \<open>now_ts\<close>
  that of \<open>new Date()\<close>.
\<close>

definition handleSaveToPano :: "nat \<Rightarrow> nat \<Rightarrow> string \<Rightarrow> state \<Rightarrow> state" where
  "handleSaveToPano now_id now_ts txt st =
     (let cleanText = trim (strip_directives txt) in
      if cleanText = [] then st
      else st\<lparr>panoNotes :=
                \<lparr>note_id = toString now_id, note_text = cleanText, note_timestamp = now_ts,
                 source = Some FromBot\<rparr> # panoNotes st,
              isProjectPanelOpen := True,
              activePanelTab := Pano\<rparr>)"

definition handleManualNoteSave :: "nat \<Rightarrow> nat \<Rightarrow> state \<Rightarrow> state" where
  "handleManualNoteSave now_id now_ts st =
     (if trim (manualNoteText st) = [] then st
      else st\<lparr>panoNotes :=
                \<lparr>note_id = toString now_id, note_text = trim (manualNoteText st),
                 note_timestamp = now_ts, source = Some FromUser\<rparr> # panoNotes st,
              manualNoteText := []\<rparr>)"

section \<open>Chat session\<close>

text \<open>
  The three Turkish literals of the component hold letters above U+00FF. They are only
  ever compared or searched for as wholes, and are written here with every letter outside
  ASCII as the bytes of its UTF-8 form.
\<close>

definition quota_fragment :: string where
  "quota_fragment = ''kotas'' @ [CHR 0xC4, CHR 0xB1] @ '' doldu''"

definition quota_message :: string where
  "quota_message =
     ''API '' @ quota_fragment @ ''. L'' @ [CHR 0xC3, CHR 0xBC] @ ''tfen bekleyin.''"

definition connection_message :: string where
  "connection_message =
     ''Ba'' @ [CHR 0xC4, CHR 0x9F] @ ''lant'' @ [CHR 0xC4, CHR 0xB1] @ '' hatas''
       @ [CHR 0xC4, CHR 0xB1] @ '' olu'' @ [CHR 0xC5, CHR 0x9F] @ ''tu.''"

definition image_done_message :: string where
  "image_done_message =
     ''G'' @ [CHR 0xC3, CHR 0xB6] @ ''rsel '' @ [CHR 0xC3, CHR 0xBC] @ ''retildi.''"

text \<open>\<open>s.includes(p)\<close>.\<close>

fun includes_str :: "string \<Rightarrow> string \<Rightarrow> bool" where
  "includes_str [] p \<longleftrightarrow> p = []"
| "includes_str (c # cs) p \<longleftrightarrow> startsWith (c # cs) p \<or> includes_str cs p"

text \<open>The effect on \<open>[bot, id, selectedModel]\<close> that opens the chat session (lines 198 to 205).\<close>

definition session_effect :: "state \<Rightarrow> state" where
  "session_effect st =
     (case current_bot st of
        None \<Rightarrow> st
      | Some b \<Rightarrow>
          st\<lparr>chatSession :=
               Some \<lparr>chat_bot = b,
                     chat_history =
                       map (\<lambda>m. (msg_role m, msg_text m))
                         (filter (\<lambda>m. msg_id m \<noteq> ''init'' \<and> msg_text m \<noteq> []
                                     \<and> \<not> includes_str (msg_text m) quota_fragment)
                            (messages st)),
                     chat_model = selectedModel st\<rparr>\<rparr>)"

section \<open>Streaming send\<close>

text \<open>
  A thrown value, as \<open>catch (e: any)\<close> receives it: \<open>undefined\<close> or \<open>null\<close>, or any
  other value, told by its \<open>message\<close> property (\<open>None\<close> when it has none).
\<close>

datatype failure = ThrownNullish | Failure "string option"

text \<open>
  The read \<open>e.message\<close>: \<open>None\<close> when the read itself throws a \<open>TypeError\<close>, which it
  does on \<open>undefined\<close> and \<open>null\<close>, and the property otherwise.
\<close>

fun failure_message :: "failure \<Rightarrow> string option option" where
  "failure_message ThrownNullish = None"
| "failure_message (Failure m) = Some m"

text \<open>
  What the surroundings contribute to one call of \<open>send\<close>: the clock readings in the
  order the code takes them, the callbacks \<open>sendMessageWithGrounding\<close> makes (a text
  fragment and the citations, \<open>None\<close> for \<open>undefined\<close>) before it resolves or throws, and
  what \<open>generateImage\<close> does with a prompt (a URL, or a thrown value). Both functions
  live in \<open>services/geminiService.ts\<close>, which is not among the sources, so a run leaves
  open what they do: any fragments, any outcome.
\<close>

record send_run =
  now_user_id :: nat
  now_user_ts :: nat
  now_bot_id :: nat
  now_bot_ts :: nat
  fragments :: "(string \<times> grounding list option) list"
  stream_failure :: "failure option"
  generateImage :: "string \<Rightarrow> failure + string"
  now_image_id :: nat
  now_image_ts :: nat

text \<open>The guard of line 281.\<close>

definition send_blocked :: "state \<Rightarrow> bool" where
  "send_blocked st \<longleftrightarrow>
     (trim (input st) = [] \<and> length (attachments st) = 0) \<or> chatSession st = None \<or> isLoading st"

definition userMsg :: "send_run \<Rightarrow> state \<Rightarrow> message" where
  "userMsg run st =
     \<lparr>msg_id = toString (now_user_id run), msg_role = User, msg_text = input st,
      msg_timestamp = now_user_ts run,
      mediaUrl = (case attachments st of [] \<Rightarrow> None | a # _ \<Rightarrow> Some (preview a)),
      msg_type =
        Some (case attachments st of
                [] \<Rightarrow> ''text''
              | a # _ \<Rightarrow> if startsWith (att_type a) ''image'' then ''image'' else ''text''),
      groundingChunks = None\<rparr>"

definition botMsgId :: "send_run \<Rightarrow> string" where
  "botMsgId run = toString (now_bot_id run + 1)"

definition placeholder :: "send_run \<Rightarrow> message" where
  "placeholder run =
     \<lparr>msg_id = botMsgId run, msg_role = Model, msg_text = [], msg_timestamp = now_bot_ts run,
      mediaUrl = None, msg_type = None, groundingChunks = Some []\<rparr>"

text \<open>Lines 282 to 288, once the guard has let the call through.\<close>

definition send_begin :: "send_run \<Rightarrow> state \<Rightarrow> state" where
  "send_begin run st =
     st\<lparr>input := [], attachments := [], isLoading := True,
        messages := (messages st @ [userMsg run st]) @ [placeholder run]\<rparr>"

text \<open>The payload of lines 290 to 295.\<close>

datatype part = TextPart string | InlineData string string

datatype payload = PlainText string | Parts "part list"

definition send_payload :: "state \<Rightarrow> payload" where
  "send_payload st =
     (if length (attachments st) > 0
      then Parts (TextPart (if input st = [] then ''Analiz et.'' else input st)
                  # map (\<lambda>a. InlineData (base64 a) (att_type a)) (attachments st))
      else PlainText (input st))"

text \<open>
  The streaming callback (lines 297 to 300) on the variable \<open>fullText\<close> and the state:
  \<open>fullText += chunk\<close>, then every message with the placeholder's identifier takes the
  whole text, and the citations too unless they are \<open>undefined\<close>.
\<close>

definition on_fragment ::
  "string \<Rightarrow> string \<times> state \<Rightarrow> string \<times> grounding list option \<Rightarrow> string \<times> state" where
  "on_fragment bid acc frag =
     (let fullText = fst acc @ fst frag in
      (fullText,
       (snd acc)\<lparr>messages :=
          map (\<lambda>m. if msg_id m = bid
                    then m\<lparr>msg_text := fullText,
                           groundingChunks :=
                             (case snd frag of Some g \<Rightarrow> Some g | None \<Rightarrow> groundingChunks m)\<rparr>
                    else m)
              (messages (snd acc))\<rparr>))"

definition stream ::
  "string \<Rightarrow> state \<Rightarrow> (string \<times> grounding list option) list \<Rightarrow> string \<times> state" where
  "stream bid st frags = foldl (on_fragment bid) ([], st) frags"

text \<open>
  The catch block (lines 308 to 310). \<open>errorMsg e\<close> is \<open>None\<close> when line 309 throws
  while it reads \<open>e.message\<close>; line 310 is not reached then and the state stays as it is.
\<close>

definition errorMsg :: "failure \<Rightarrow> string option" where
  "errorMsg e =
     (case failure_message e of
        None \<Rightarrow> None
      | Some m \<Rightarrow> Some (if m = Some ''SYSTEM_BUSY'' then quota_message else connection_message))"

definition send_catch :: "string \<Rightarrow> failure \<Rightarrow> state \<Rightarrow> state" where
  "send_catch bid e st =
     (case errorMsg e of
        None \<Rightarrow> st
      | Some txt \<Rightarrow>
          st\<lparr>messages := map (\<lambda>m. if msg_id m = bid then m\<lparr>msg_text := txt\<rparr> else m) (messages st)\<rparr>)"

definition imageMsg :: "send_run \<Rightarrow> string \<Rightarrow> message" where
  "imageMsg run url =
     \<lparr>msg_id = toString (now_image_id run), msg_role = Model, msg_text = image_done_message,
      msg_timestamp = now_image_ts run, mediaUrl = Some url, msg_type = Some ''image'',
      groundingChunks = None\<rparr>"

text \<open>
  Lines 301 to 307: the image request that follows a directive in the assembled text.
  \<open>Inl\<close> carries what \<open>generateImage\<close> threw, with the state it left behind.
\<close>

definition send_image ::
  "send_run \<Rightarrow> bot option \<Rightarrow> string \<Rightarrow> state \<Rightarrow> failure \<times> state + state" where
  "send_image run b fullText st =
     (case leftmost image_directive_at fullText of
        None \<Rightarrow> Inr st
      | Some (prompt, rest) \<Rightarrow>
          (if (case b of None \<Rightarrow> False | Some b' \<Rightarrow> hasImageGen b') then
             (case generateImage run prompt of
                Inl e \<Rightarrow> Inl (e, st\<lparr>isGeneratingMedia := Some ImageGen\<rparr>)
              | Inr url \<Rightarrow>
                  Inr (st\<lparr>messages := messages st @ [imageMsg run url],
                          isGeneratingMedia := None\<rparr>))
           else Inr st))"

text \<open>\<open>send\<close> from the click to the \<open>finally\<close> block.\<close>

definition send :: "send_run \<Rightarrow> state \<Rightarrow> state" where
  "send run st =
     (if send_blocked st then st
      else
        (let b = current_bot st;
             streamed = stream (botMsgId run) (send_begin run st) (fragments run);
             settled =
               (case stream_failure run of
                  Some e \<Rightarrow> send_catch (botMsgId run) e (snd streamed)
                | None \<Rightarrow>
                    (case send_image run b (fst streamed) (snd streamed) of
                       Inr st' \<Rightarrow> st'
                     | Inl (e, st') \<Rightarrow> send_catch (botMsgId run) e st'))
         in settled\<lparr>isLoading := False\<rparr>))"

section \<open>Rendering a message\<close>

text \<open>\<open>text.split('\n')\<close>.\<close>

fun split_lines :: "string \<Rightarrow> string list" where
  "split_lines [] = [] # []"
| "split_lines (c # cs) =
     (if c = CHR 0x0A then [] # split_lines cs
      else (case split_lines cs of l # ls \<Rightarrow> (c # l) # ls | [] \<Rightarrow> [c] # []))"

text \<open>
  A line of \<open>renderFormattedLines\<close>: the heading level its class stands for (0 for none)
  and its content with the marker removed. The content is cut further into bold, italic
  and link spans, which no property below looks at.
\<close>

datatype line = Line nat string

definition render_line :: "string \<Rightarrow> line" where
  "render_line content =
     (if startsWith content ''### '' then Line 3 (drop 4 content)
      else if startsWith content ''## '' then Line 2 (drop 3 content)
      else if startsWith content ''# '' then Line 1 (drop 2 content)
      else Line 0 content)"

definition renderFormattedLines :: "string \<Rightarrow> line list" where
  "renderFormattedLines txt = map render_line (split_lines txt)"

text \<open>
  What \<open>renderMessageContent\<close> returns: the pending marker, or the user's picture, the
  blocks and the generated picture. A code block has its identifier, its label and, when
  expanded, its trimmed content.
\<close>

datatype block = CodeBlock string js_value "string option" | FormattedText "line list"

datatype rendered = Pending | Content "string option" "block list" "string option"

definition render_part :: "state \<Rightarrow> message \<Rightarrow> nat \<times> string \<Rightarrow> block" where
  "render_part st msg ip =
     (case codeMatch (snd ip) of
        Some (lang, content) \<Rightarrow>
          (let blockId = msg_id msg @ ''-'' @ toString (fst ip) in
           CodeBlock blockId
             (getFilenameFromCode content (case lang of None \<Rightarrow> ''code'' | Some l \<Rightarrow> l))
             (if blockId \<in> expandedBlocks st then Some (trim content) else None))
      | None \<Rightarrow> FormattedText (renderFormattedLines (snd ip)))"

definition message_parts :: "message \<Rightarrow> string list" where
  "message_parts msg = split_fences (trim (strip_directives (msg_text msg)))"

definition truthy_url :: "string option \<Rightarrow> string option" where
  "truthy_url u = (case u of None \<Rightarrow> None | Some v \<Rightarrow> if v = [] then None else Some v)"

definition renderMessageContent :: "state \<Rightarrow> message \<Rightarrow> rendered" where
  "renderMessageContent st msg =
     (if msg_text msg = [] \<and> isLoading st \<and> msg_role msg = Model then Pending
      else
        Content
          (if msg_role msg = User then truthy_url (mediaUrl msg) else None)
          (map (render_part st msg) (enumerate 0 (message_parts msg)))
          (if msg_role msg = Model \<and> msg_type msg = Some ''image'' then truthy_url (mediaUrl msg)
           else None))"

fun is_code_block :: "block \<Rightarrow> bool" where
  "is_code_block (CodeBlock i l c) = True"
| "is_code_block (FormattedText ls) = False"

text \<open>The thrown value that reaches the catch block of a call that got past the guard, if any.\<close>

definition send_failed :: "send_run \<Rightarrow> state \<Rightarrow> failure option" where
  "send_failed run st =
     (let streamed = stream (botMsgId run) (send_begin run st) (fragments run) in
      case stream_failure run of
        Some e \<Rightarrow> Some e
      | None \<Rightarrow>
          (case send_image run (current_bot st) (fst streamed) (snd streamed) of
             Inl (e, st') \<Rightarrow> Some e
           | Inr st' \<Rightarrow> None))"

text \<open>
  Every identifier of the list is \<open>init\<close> or the reading of a clock that stood below
  \<open>c\<close>.
\<close>

definition ids_before :: "nat \<Rightarrow> message list \<Rightarrow> bool" where
  "ids_before c ms \<longleftrightarrow> (\<forall>m \<in> set ms. msg_id m = ''init'' \<or> (\<exists>n < c. msg_id m = toString n))"

text \<open>
  Whether the promise of \<open>send\<close> rejects: a failure reached the catch block and the catch
  block threw in turn. The \<open>finally\<close> block has run all the same.
\<close>

definition send_rejects :: "send_run \<Rightarrow> state \<Rightarrow> bool" where
  "send_rejects run st \<longleftrightarrow>
     \<not> send_blocked st
     \<and> (case send_failed run st of None \<Rightarrow> False | Some e \<Rightarrow> errorMsg e = None)"

section \<open>Concrete inputs\<close>

definition example_bot :: bot where
  "example_bot = \<lparr>bot_id = ''b1'', bot_name = ''Helper'', hasImageGen = True\<rparr>"

definition example_codec :: json_codec where
  "example_codec =
     \<lparr>stringify_messages = (\<lambda>ms. if ms = [] then ''[]'' else ''[...]''),
      parse_messages = (\<lambda>s. if s = ''[]'' then Some [] else None),
      parse_notes = (\<lambda>s. if s = ''[]'' then Some [] else None)\<rparr>"

text \<open>A session of \<open>example_bot\<close> with \<open>hi\<close> typed in and nothing sent yet.\<close>

definition example_state :: state where
  "example_state =
     \<lparr>route_id = Some ''b1'', bots = [example_bot], messages = [], input = ''hi'',
      attachments = [], isLoading = False, isGeneratingMedia = None,
      chatSession = Some \<lparr>chat_bot = example_bot, chat_history = [], chat_model = ''gemini-3-pro-preview''\<rparr>,
      selectedModel = ''gemini-3-pro-preview'', expandedBlocks = {}, showResetModal = False,
      isProjectPanelOpen = False, activePanelTab = Files, manualNoteText = ''  buy milk '',
      panoNotes = [], localStorage = Map.empty\<rparr>"

text \<open>A reply in two fragments, read at clock 1000.\<close>

definition example_run :: send_run where
  "example_run =
     \<lparr>now_user_id = 1000, now_user_ts = 1000, now_bot_id = 1000, now_bot_ts = 1000,
      fragments = [(''Hel'', None), (''lo'', None)], stream_failure = None,
      generateImage = (\<lambda>prompt. Inr ''blob:picture''),
      now_image_id = 1005, now_image_ts = 1005\<rparr>"

text \<open>The same reply cut short by the backend's quota signal, and by another error.\<close>

definition busy_run :: send_run where
  "busy_run =
     example_run\<lparr>fragments := [(''Hel'', None)],
                 stream_failure := Some (Failure (Some ''SYSTEM_BUSY''))\<rparr>"

definition offline_run :: send_run where
  "offline_run = example_run\<lparr>fragments := [], stream_failure := Some (Failure (Some ''Failed to fetch''))\<rparr>"

text \<open>The reply cut short by a promise rejected without a reason.\<close>

definition nullish_run :: send_run where
  "nullish_run = example_run\<lparr>fragments := [(''Hel'', None)], stream_failure := Some ThrownNullish\<rparr>"

text \<open>The session with only blanks typed in.\<close>

definition blank_state :: state where
  "blank_state = example_state\<lparr>input := ''  ''\<rparr>"

text \<open>
  The session after its greeting, with entries in storage for this bot and for another,
  and the same session over entries that are no JSON.
\<close>

definition stored_state :: state where
  "stored_state =
     example_state\<lparr>messages := [init_message example_bot 900],
                   localStorage :=
                     [''geminihub_chat_history_b1'' \<mapsto> ''[...]'',
                      ''geminihub_chat_history_b2'' \<mapsto> ''[]'',
                      ''geminihub_pano_b1'' \<mapsto> ''[]'',
                      ''geminihub_selected_model_b1'' \<mapsto> ''gemini-flash-latest'']\<rparr>"

definition corrupt_state :: state where
  "corrupt_state =
     example_state\<lparr>localStorage :=
                     [''geminihub_chat_history_b1'' \<mapsto> ''{broken'',
                      ''geminihub_pano_b1'' \<mapsto> ''{broken'']\<rparr>"

text \<open>
  The session after the reply of \<open>example_run\<close> with a new text typed in, a second send
  one millisecond after the first, and one four seconds later.
\<close>

definition later_state :: state where
  "later_state =
     example_state\<lparr>messages :=
                     [\<lparr>msg_id = ''1000'', msg_role = User, msg_text = ''hi'', msg_timestamp = 1000,
                       mediaUrl = None, msg_type = Some ''text'', groundingChunks = None\<rparr>,
                      \<lparr>msg_id = ''1001'', msg_role = Model, msg_text = ''Hello'',
                       msg_timestamp = 1000, mediaUrl = None, msg_type = None,
                       groundingChunks = Some []\<rparr>],
                   input := ''again''\<rparr>"

definition second_run :: send_run where
  "second_run =
     example_run\<lparr>now_user_id := 1001, now_user_ts := 1001, now_bot_id := 1001,
                 now_bot_ts := 1001, now_image_id := 1006, now_image_ts := 1006\<rparr>"

definition later_run :: send_run where
  "later_run =
     example_run\<lparr>now_user_id := 5000, now_user_ts := 5000, now_bot_id := 5000,
                 now_bot_ts := 5000, now_image_id := 5005, now_image_ts := 5005\<rparr>"

text \<open>
  A reply with one closed code block and a fence that is never closed after it, and a
  reply whose only fence is never closed.
\<close>

definition fenced_message :: message where
  "fenced_message =
     \<lparr>msg_id = ''1001'', msg_role = Model,
      msg_text = ''a'' @ fence @ ''js\<newline>x'' @ fence @ ''b'' @ fence @ ''c'',
      msg_timestamp = 1000, mediaUrl = None, msg_type = None, groundingChunks = Some []\<rparr>"

definition open_message :: message where
  "open_message =
     \<lparr>msg_id = ''1003'', msg_role = Model, msg_text = ''see '' @ fence @ ''js\<newline>let x'',
      msg_timestamp = 1002, mediaUrl = None, msg_type = None, groundingChunks = Some []\<rparr>"

text \<open>A reply whose code block carries the language tag \<open>__proto__\<close>.\<close>

definition proto_message :: message where
  "proto_message =
     \<lparr>msg_id = ''1005'', msg_role = Model, msg_text = fence @ ''__proto__\<newline>x'' @ fence,
      msg_timestamp = 1004, mediaUrl = None, msg_type = None, groundingChunks = Some []\<rparr>"

section \<open>Properties of the streaming send\<close>

lemma stream_snoc: "stream bid st (frags @ [f]) = on_fragment bid (stream bid st frags) f"
  by (simp add: stream_def)

lemma fst_stream: "fst (stream bid st frags) = concat (map fst frags)"
  by (induction frags rule: rev_induct) (simp_all add: stream_def on_fragment_def Let_def)

lemma ids_stream:
  "map (\<lambda>m. (msg_id m, msg_role m)) (messages (snd (stream bid st frags))) = map (\<lambda>m. (msg_id m, msg_role m)) (messages st)"
proof (induction frags rule: rev_induct)
  case Nil
  then show ?case by (simp add: stream_def)
next
  case (snoc f frags)
  have "map (\<lambda>m. (msg_id m, msg_role m)) (messages (snd (on_fragment bid acc f))) = map (\<lambda>m. (msg_id m, msg_role m)) (messages (snd acc))" for acc
    by (simp add: on_fragment_def Let_def comp_def)
  with snoc show ?case by (simp add: stream_snoc)
qed

lemma length_stream: "length (messages (snd (stream bid st frags))) = length (messages st)"
  using ids_stream [of bid st frags, THEN arg_cong, of length] by simp

lemma text_on_fragment:
  assumes "m \<in> set (messages (snd (on_fragment bid acc f)))" and "msg_id m = bid"
  shows "msg_text m = fst acc @ fst f"
proof -
  from assms(1) obtain m0 where "m0 \<in> set (messages (snd acc))"
    and m: "m = (if msg_id m0 = bid
                then m0\<lparr>msg_text := fst acc @ fst f,
                        groundingChunks := (case snd f of Some g \<Rightarrow> Some g | None \<Rightarrow> groundingChunks m0)\<rparr>
                else m0)"
    by (auto simp: on_fragment_def Let_def)
  show ?thesis
  proof (cases "msg_id m0 = bid")
    case True
    with m show ?thesis by simp
  next
    case False
    with m assms(2) show ?thesis by simp
  qed
qed

lemma text_stream:
  assumes "m \<in> set (messages (snd (stream bid st frags)))" and "msg_id m = bid" and "frags \<noteq> []"
  shows "msg_text m = concat (map fst frags)"
proof -
  from assms(3) obtain fs f where fr: "frags = fs @ [f]"
    by (metis rev_exhaust)
  with assms(1) have "m \<in> set (messages (snd (on_fragment bid (stream bid st fs) f)))"
    by (simp add: stream_snoc)
  from text_on_fragment [OF this assms(2)] show ?thesis
    by (simp add: fr fst_stream)
qed

lemma nth_stream_id:
  assumes "i < length (messages st)"
  shows "msg_id (messages (snd (stream bid st frags)) ! i) = msg_id (messages st ! i)"
proof -
  have "map msg_id (messages (snd (stream bid st frags))) = map msg_id (messages st)"
    using ids_stream [of bid st frags, THEN arg_cong, of "map fst"] by (simp add: comp_def)
  then have "map msg_id (messages (snd (stream bid st frags))) ! i = map msg_id (messages st) ! i"
    by simp
  with assms show ?thesis by (simp add: length_stream)
qed

lemma placeholder_streamed:
  fixes run st frags
  defines "ms \<equiv> messages (snd (stream (botMsgId run) (send_begin run st) frags))"
  shows "length ms = length (messages st) + 2"
    and "msg_id (ms ! Suc (length (messages st))) = botMsgId run"
    and "msg_text (ms ! Suc (length (messages st))) = concat (map fst frags)"
proof -
  let ?p = "Suc (length (messages st))"
  have len0: "length (messages (send_begin run st)) = length (messages st) + 2"
    by (simp add: send_begin_def)
  show len: "length ms = length (messages st) + 2"
    unfolding ms_def by (simp add: length_stream len0)
  have at0: "messages (send_begin run st) ! ?p = placeholder run"
    by (simp add: send_begin_def nth_append)
  show idp: "msg_id (ms ! ?p) = botMsgId run"
    unfolding ms_def using nth_stream_id [of ?p "send_begin run st" "botMsgId run" frags]
    by (simp add: len0 at0 placeholder_def)
  show "msg_text (ms ! ?p) = concat (map fst frags)"
  proof (cases "frags = []")
    case True
    show ?thesis unfolding ms_def True by (simp add: stream_def at0 placeholder_def)
  next
    case False
    have "ms ! ?p \<in> set ms" using len by simp
    then show ?thesis
      unfolding ms_def using idp False by (auto intro: text_stream simp: ms_def)
  qed
qed

lemma send_image_appends:
  assumes "send_image run b fullText st = Inr st'"
  shows "\<exists>extra. messages st' = messages st @ extra
           \<and> (extra = [] \<or> (\<exists>url. extra = [imageMsg run url]))"
proof (cases "leftmost image_directive_at fullText")
  case None
  with assms show ?thesis by (simp add: send_image_def)
next
  case (Some pr)
  obtain prompt rest where pr: "pr = (prompt, rest)" by (cases pr)
  show ?thesis
  proof (cases "case b of None \<Rightarrow> False | Some b' \<Rightarrow> hasImageGen b'")
    case False
    with assms Some pr show ?thesis by (simp add: send_image_def)
  next
    case True
    show ?thesis
    proof (cases "generateImage run prompt")
      case (Inl e)
      with assms Some pr True show ?thesis by (simp add: send_image_def)
    next
      case (Inr url)
      with assms Some pr True have "messages st' = messages st @ [imageMsg run url]"
        by (auto simp: send_image_def)
      then show ?thesis by blast
    qed
  qed
qed

lemma send_unfailed:
  assumes "\<not> send_blocked st" and "send_failed run st = None"
  shows "\<exists>extra. messages (send run st)
           = messages (snd (stream (botMsgId run) (send_begin run st) (fragments run))) @ extra
         \<and> (extra = [] \<or> (\<exists>url. extra = [imageMsg run url]))"
proof -
  let ?streamed = "stream (botMsgId run) (send_begin run st) (fragments run)"
  from assms(2) have sf: "stream_failure run = None"
    by (simp add: send_failed_def Let_def split: option.splits)
  from assms(2) sf obtain st' where
    si: "send_image run (current_bot st) (fst ?streamed) (snd ?streamed) = Inr st'"
    by (auto simp: send_failed_def Let_def split: sum.splits)
  from assms(1) sf si have "messages (send run st) = messages st'"
    by (simp add: send_def Let_def)
  with send_image_appends [OF si] show ?thesis by simp
qed

lemma send_catch_media:
  "messages (send_catch bid e (st\<lparr>isGeneratingMedia := g\<rparr>)) = messages (send_catch bid e st)"
  by (simp add: send_catch_def split: option.splits)

lemma send_failed_messages:
  assumes "\<not> send_blocked st" and "send_failed run st = Some e"
  shows "messages (send run st)
           = messages (send_catch (botMsgId run) e
               (snd (stream (botMsgId run) (send_begin run st) (fragments run))))"
  using assms
  by (auto simp: send_def send_failed_def Let_def send_image_def send_catch_media
           split: option.splits sum.splits prod.splits if_splits)

text \<open>
  Claim C1. After every callback of one send the placeholder, which sits right after the
  user message, carries the fragments received so far joined in arrival order; when the
  send meets no failure this is also the text it ends with. For the fragments \<open>Hel\<close>,
  \<open>lo\<close> the text is \<open>Hel\<close> after the first callback and \<open>Hello\<close> at the end.
\<close>

theorem streamed_text_is_concatenation:
  "(\<forall>k. msg_id (messages (snd (stream (botMsgId run) (send_begin run st) (take k (fragments run))))
              ! Suc (length (messages st))) = botMsgId run
       \<and> msg_text (messages (snd (stream (botMsgId run) (send_begin run st) (take k (fragments run))))
              ! Suc (length (messages st))) = concat (map fst (take k (fragments run))))
   \<and> (\<not> send_blocked st \<and> send_failed run st = None
        \<longrightarrow> msg_id (messages (send run st) ! Suc (length (messages st))) = botMsgId run
          \<and> msg_text (messages (send run st) ! Suc (length (messages st)))
              = concat (map fst (fragments run)))"
proof (intro conjI allI impI)
  fix k
  show "msg_id (messages (snd (stream (botMsgId run) (send_begin run st) (take k (fragments run))))
              ! Suc (length (messages st))) = botMsgId run"
    by (rule placeholder_streamed(2))
  show "msg_text (messages (snd (stream (botMsgId run) (send_begin run st) (take k (fragments run))))
              ! Suc (length (messages st))) = concat (map fst (take k (fragments run)))"
    by (rule placeholder_streamed(3))
next
  assume a: "\<not> send_blocked st \<and> send_failed run st = None"
  let ?ms = "messages (snd (stream (botMsgId run) (send_begin run st) (fragments run)))"
  from a send_unfailed obtain extra where e: "messages (send run st) = ?ms @ extra"
    by blast
  have "Suc (length (messages st)) < length ?ms"
    by (simp add: placeholder_streamed(1))
  then have n: "messages (send run st) ! Suc (length (messages st)) = ?ms ! Suc (length (messages st))"
    by (simp add: e nth_append)
  show "msg_id (messages (send run st) ! Suc (length (messages st))) = botMsgId run"
    unfolding n by (rule placeholder_streamed(2))
  show "msg_text (messages (send run st) ! Suc (length (messages st))) = concat (map fst (fragments run))"
    unfolding n by (rule placeholder_streamed(3))
qed

theorem streamed_text_is_concatenation_witness:
  "\<not> send_blocked example_state \<and> send_failed example_run example_state = None
   \<and> fragments example_run = [(''Hel'', None), (''lo'', None)]
   \<and> msg_text (messages (snd (stream (botMsgId example_run) (send_begin example_run example_state)
         (take 1 (fragments example_run)))) ! 1) = ''Hel''
   \<and> msg_text (messages (send example_run example_state) ! 1) = ''Hello''"
proof -
  have h: "\<not> send_blocked example_state \<and> send_failed example_run example_state = None"
    by code_simp
  have f: "fragments example_run = [(''Hel'', None), (''lo'', None)]"
    by (simp add: example_run_def)
  have l: "Suc (length (messages example_state)) = 1"
    by (simp add: example_state_def)
  note t = streamed_text_is_concatenation [of example_run example_state]
  from t have "msg_text (messages (snd (stream (botMsgId example_run) (send_begin example_run example_state)
         (take 1 (fragments example_run)))) ! Suc (length (messages example_state)))
       = concat (map fst (take 1 (fragments example_run)))"
    by blast
  then have a: "msg_text (messages (snd (stream (botMsgId example_run) (send_begin example_run example_state)
         (take 1 (fragments example_run)))) ! 1) = ''Hel''"
    unfolding l by (simp add: f)
  from t h have "msg_text (messages (send example_run example_state) ! Suc (length (messages example_state)))
       = concat (map fst (fragments example_run))"
    by blast
  then have b: "msg_text (messages (send example_run example_state) ! 1) = ''Hello''"
    unfolding l by (simp add: f)
  from h f a b show ?thesis by blast
qed

text \<open>
  A failure whose thrown value is neither \<open>undefined\<close> nor \<open>null\<close>: the placeholder's
  text becomes the quota message exactly when the value's message is \<open>SYSTEM_BUSY\<close> and
  the connection message otherwise, and the list holds the two messages the send appended
  at its start and no more.
\<close>

lemma object_failure_replaces_placeholder:
  assumes "\<not> send_blocked st" and "send_failed run st = Some (Failure m)"
  shows "length (messages (send run st)) = length (messages st) + 2"
    and "msg_id (messages (send run st) ! Suc (length (messages st))) = botMsgId run"
    and "msg_text (messages (send run st) ! Suc (length (messages st)))
           = (if m = Some ''SYSTEM_BUSY'' then quota_message else connection_message)"
    and "quota_message \<noteq> connection_message"
proof -
  let ?ms = "messages (snd (stream (botMsgId run) (send_begin run st) (fragments run)))"
  let ?p = "Suc (length (messages st))"
  let ?txt = "if m = Some ''SYSTEM_BUSY'' then quota_message else connection_message"
  have m: "messages (send run st)
        = map (\<lambda>m. if msg_id m = botMsgId run then m\<lparr>msg_text := ?txt\<rparr> else m) ?ms"
    using send_failed_messages [OF assms] by (simp add: send_catch_def errorMsg_def)
  have len: "length ?ms = length (messages st) + 2"
    by (rule placeholder_streamed(1))
  have idp: "msg_id (?ms ! ?p) = botMsgId run"
    by (rule placeholder_streamed(2))
  show "length (messages (send run st)) = length (messages st) + 2"
    by (simp add: m len)
  show "msg_id (messages (send run st) ! ?p) = botMsgId run"
    by (simp add: m len idp)
  show "msg_text (messages (send run st) ! ?p) = ?txt"
    by (simp add: m len idp)
  show "quota_message \<noteq> connection_message"
    by (simp add: quota_message_def connection_message_def)
qed

lemma object_failure_examples:
  "msg_text (messages (send busy_run example_state) ! 1) = quota_message"
  "msg_text (messages (send offline_run example_state) ! 1) = connection_message"
proof -
  have h: "\<not> send_blocked example_state" by code_simp
  have b: "send_failed busy_run example_state = Some (Failure (Some ''SYSTEM_BUSY''))"
    by (simp add: send_failed_def busy_run_def example_run_def)
  have off: "send_failed offline_run example_state = Some (Failure (Some ''Failed to fetch''))"
    by (simp add: send_failed_def offline_run_def example_run_def)
  have l: "Suc (length (messages example_state)) = 1" by (simp add: example_state_def)
  from object_failure_replaces_placeholder(3) [OF h b]
  show "msg_text (messages (send busy_run example_state) ! 1) = quota_message"
    unfolding l by simp
  from object_failure_replaces_placeholder(3) [OF h off]
  show "msg_text (messages (send offline_run example_state) ! 1) = connection_message"
    unfolding l by simp
qed

text \<open>
  Claim C2 holds for every thrown value that has properties (lemma
  \<open>object_failure_replaces_placeholder\<close>). When the stream rejects with \<open>undefined\<close>, as
  a promise rejected without a reason does, or with \<open>null\<close>, the catch block throws while
  it reads the message: the placeholder keeps the text streamed so far instead of the
  connection message, and the promise of \<open>send\<close> rejects.
\<close>

theorem nullish_failure_keeps_placeholder:
  "\<not> send_blocked example_state
   \<and> send_failed nullish_run example_state = Some ThrownNullish
   \<and> errorMsg ThrownNullish = None
   \<and> msg_id (messages (send nullish_run example_state) ! 1) = botMsgId nullish_run
   \<and> msg_text (messages (send nullish_run example_state) ! 1) = ''Hel''
   \<and> msg_text (messages (send nullish_run example_state) ! 1) \<noteq> connection_message
   \<and> send_rejects nullish_run example_state
   \<and> \<not> isLoading (send nullish_run example_state)"
  by code_simp

lemma ids_send_catch:
  "map (\<lambda>m. (msg_id m, msg_role m)) (messages (send_catch bid e st))
     = map (\<lambda>m. (msg_id m, msg_role m)) (messages st)"
  by (simp add: send_catch_def comp_def split: option.splits)

lemma ids_send_begin:
  "map (\<lambda>m. (msg_id m, msg_role m)) (messages (send_begin run st))
     = map (\<lambda>m. (msg_id m, msg_role m)) (messages st)
         @ [(toString (now_user_id run), User), (botMsgId run, Model)]"
  by (simp add: send_begin_def userMsg_def placeholder_def)

lemma ids_send:
  assumes "\<not> send_blocked st"
  shows "\<exists>extra. map (\<lambda>m. (msg_id m, msg_role m)) (messages (send run st))
                  = map (\<lambda>m. (msg_id m, msg_role m)) (messages st)
                      @ [(toString (now_user_id run), User), (botMsgId run, Model)] @ extra
               \<and> (extra = [] \<or> extra = [(toString (now_image_id run), Model)])"
proof (cases "send_failed run st")
  case None
  from send_unfailed [OF assms None] obtain extra
    where e: "messages (send run st)
                = messages (snd (stream (botMsgId run) (send_begin run st) (fragments run))) @ extra"
      and l: "extra = [] \<or> (\<exists>url. extra = [imageMsg run url])"
    by blast
  have eq: "map (\<lambda>m. (msg_id m, msg_role m)) (messages (send run st))
          = map (\<lambda>m. (msg_id m, msg_role m)) (messages st)
              @ [(toString (now_user_id run), User), (botMsgId run, Model)]
              @ map (\<lambda>m. (msg_id m, msg_role m)) extra"
    by (simp add: e ids_stream ids_send_begin)
  from l show ?thesis
  proof
    assume "extra = []"
    with eq show ?thesis by (intro exI [of _ "[]"]) simp
  next
    assume "\<exists>url. extra = [imageMsg run url]"
    then obtain url where "extra = [imageMsg run url]" ..
    with eq show ?thesis
      by (intro exI [of _ "[(toString (now_image_id run), Model)]"]) (simp add: imageMsg_def)
  qed
next
  case (Some e)
  have "map (\<lambda>m. (msg_id m, msg_role m)) (messages (send run st))
          = map (\<lambda>m. (msg_id m, msg_role m)) (messages st)
              @ [(toString (now_user_id run), User), (botMsgId run, Model)] @ []"
    by (simp add: send_failed_messages [OF assms Some] ids_send_catch ids_stream ids_send_begin)
  then show ?thesis by (intro exI [of _ "[]"]) simp
qed

text \<open>
  Claim C4, amended. The send is a no-op whenever the input is empty or only white space
  with no attachments, or there is no chat session, or a send is in flight. In every other
  case it appends one user message followed by one placeholder model message and clears
  the input and the attachments before the request; by its end the list has grown by just
  these two, in this order, and at most one image message after them.
\<close>

theorem send_guard:
  "(send_blocked st \<longleftrightarrow>
      (trim (input st) = [] \<and> attachments st = []) \<or> chatSession st = None \<or> isLoading st)
   \<and> (send_blocked st \<longrightarrow> send run st = st)
   \<and> (\<not> send_blocked st \<longrightarrow>
        messages (send_begin run st) = messages st @ [userMsg run st, placeholder run]
        \<and> msg_role (userMsg run st) = User \<and> msg_text (userMsg run st) = input st
        \<and> msg_role (placeholder run) = Model \<and> msg_text (placeholder run) = []
        \<and> input (send_begin run st) = [] \<and> attachments (send_begin run st) = []
        \<and> isLoading (send_begin run st)
        \<and> (\<exists>extra. map (\<lambda>m. (msg_id m, msg_role m)) (messages (send run st))
                      = map (\<lambda>m. (msg_id m, msg_role m)) (messages st)
                          @ [(toString (now_user_id run), User), (botMsgId run, Model)] @ extra
                   \<and> (extra = [] \<or> extra = [(toString (now_image_id run), Model)])))"
proof (intro conjI impI)
  show "send_blocked st \<longleftrightarrow>
      (trim (input st) = [] \<and> attachments st = []) \<or> chatSession st = None \<or> isLoading st"
    by (simp add: send_blocked_def)
  show "send run st = st" if "send_blocked st"
    using that by (simp add: send_def)
  show "\<exists>extra. map (\<lambda>m. (msg_id m, msg_role m)) (messages (send run st))
                      = map (\<lambda>m. (msg_id m, msg_role m)) (messages st)
                          @ [(toString (now_user_id run), User), (botMsgId run, Model)] @ extra
                   \<and> (extra = [] \<or> extra = [(toString (now_image_id run), Model)])" if "\<not> send_blocked st"
    using that by (rule ids_send)
qed (simp_all add: send_begin_def userMsg_def placeholder_def)

theorem send_guard_witness:
  "send_blocked blank_state \<and> send example_run blank_state = blank_state
   \<and> \<not> send_blocked example_state
   \<and> map msg_text (messages (send_begin example_run example_state)) = [''hi'', [] ]
   \<and> map msg_id (messages (send_begin example_run example_state)) = [''1000'', ''1001'']"
proof -
  have b: "send_blocked blank_state" by code_simp
  have e: "\<not> send_blocked example_state" by code_simp
  have m: "messages example_state = []" by (simp add: example_state_def)
  have u: "userMsg example_run example_state
             = \<lparr>msg_id = ''1000'', msg_role = User, msg_text = ''hi'', msg_timestamp = 1000,
                mediaUrl = None, msg_type = Some ''text'', groundingChunks = None\<rparr>"
    by code_simp
  have p: "msg_id (placeholder example_run) = ''1001''"
    by code_simp
  from send_guard [of blank_state example_run] b
  have 1: "send example_run blank_state = blank_state" by blast
  from send_guard [of example_state example_run] e
  have 2: "messages (send_begin example_run example_state)
             = messages example_state @ [userMsg example_run example_state, placeholder example_run]"
    and 3: "msg_text (placeholder example_run) = []"
    by blast+
  from b e 1 2 3 u p m show ?thesis by simp
qed

text \<open>
  Claim C4 as stated fails on an input of two blanks: the text is not empty, no send is
  in flight and the session is live, yet nothing is appended.
\<close>

theorem send_blank_input_counterexample:
  "input blank_state \<noteq> [] \<and> attachments blank_state = [] \<and> chatSession blank_state \<noteq> None
   \<and> \<not> isLoading blank_state
   \<and> messages (send example_run blank_state) = messages blank_state"
  by code_simp

section \<open>Properties of storage\<close>

lemma CHAT_key_inj: "CHAT_STORAGE_KEY i = CHAT_STORAGE_KEY j \<longleftrightarrow> template_id i = template_id j"
  by (simp add: CHAT_STORAGE_KEY_def)

lemma CHAT_key_not_PANO: "PANO_STORAGE_KEY j \<noteq> CHAT_STORAGE_KEY i"
  by (simp add: CHAT_STORAGE_KEY_def PANO_STORAGE_KEY_def)

lemma CHAT_key_not_MODEL: "MODEL_STORAGE_KEY j \<noteq> CHAT_STORAGE_KEY i"
  by (simp add: CHAT_STORAGE_KEY_def MODEL_STORAGE_KEY_def)

text \<open>
  Claim C5. Confirming the reset empties the message list and removes the chat-history
  entry of the current bot identifier from storage; every other key keeps its value, among
  them the chat histories of other identifiers and all note and model entries, and the
  notes list and the selected model in memory stay as they were.
\<close>

theorem reset_clears_history:
  "messages (reset_confirm st) = []
   \<and> localStorage (reset_confirm st) (CHAT_STORAGE_KEY (route_id st)) = None
   \<and> (\<forall>k. k \<noteq> CHAT_STORAGE_KEY (route_id st) \<longrightarrow> localStorage (reset_confirm st) k = localStorage st k)
   \<and> (\<forall>j. template_id j \<noteq> template_id (route_id st) \<longrightarrow>
          localStorage (reset_confirm st) (CHAT_STORAGE_KEY j) = localStorage st (CHAT_STORAGE_KEY j))
   \<and> (\<forall>j. localStorage (reset_confirm st) (PANO_STORAGE_KEY j) = localStorage st (PANO_STORAGE_KEY j)
          \<and> localStorage (reset_confirm st) (MODEL_STORAGE_KEY j) = localStorage st (MODEL_STORAGE_KEY j))
   \<and> panoNotes (reset_confirm st) = panoNotes st
   \<and> selectedModel (reset_confirm st) = selectedModel st"
  by (auto simp: reset_confirm_def CHAT_key_inj CHAT_key_not_PANO CHAT_key_not_MODEL)

theorem reset_clears_history_witness:
  "messages (reset_confirm stored_state) = []
   \<and> localStorage stored_state ''geminihub_chat_history_b1'' = Some ''[...]''
   \<and> localStorage (reset_confirm stored_state) ''geminihub_chat_history_b1'' = None
   \<and> template_id (Some ''b2'') \<noteq> template_id (route_id stored_state)
   \<and> localStorage (reset_confirm stored_state) ''geminihub_chat_history_b2'' = Some ''[]''
   \<and> ''geminihub_pano_b1'' \<noteq> CHAT_STORAGE_KEY (route_id stored_state)
   \<and> localStorage (reset_confirm stored_state) ''geminihub_pano_b1'' = Some ''[]''"
proof -
  note t = reset_clears_history [of stored_state]
  have r: "route_id stored_state = Some ''b1''"
    by (simp add: stored_state_def example_state_def)
  have k: "CHAT_STORAGE_KEY (Some ''b1'') = ''geminihub_chat_history_b1''"
    "CHAT_STORAGE_KEY (Some ''b2'') = ''geminihub_chat_history_b2''"
    by (simp_all add: CHAT_STORAGE_KEY_def template_id_def)
  have d: "template_id (Some ''b2'') \<noteq> template_id (route_id stored_state)"
    by (simp add: r template_id_def)
  have p: "''geminihub_pano_b1'' \<noteq> CHAT_STORAGE_KEY (route_id stored_state)"
    by (simp add: r k)
  from t have 1: "messages (reset_confirm stored_state) = []" by blast
  from t have 2: "localStorage (reset_confirm stored_state) ''geminihub_chat_history_b1'' = None"
    by (simp add: r k)
  from t d have "localStorage (reset_confirm stored_state) (CHAT_STORAGE_KEY (Some ''b2''))
       = localStorage stored_state (CHAT_STORAGE_KEY (Some ''b2''))"
    by blast
  then have 3: "localStorage (reset_confirm stored_state) ''geminihub_chat_history_b2'' = Some ''[]''"
    by (simp add: k stored_state_def)
  from t p have "localStorage (reset_confirm stored_state) ''geminihub_pano_b1''
       = localStorage stored_state ''geminihub_pano_b1''"
    by blast
  then have 4: "localStorage (reset_confirm stored_state) ''geminihub_pano_b1'' = Some ''[]''"
    by (simp add: stored_state_def)
  have 0: "localStorage stored_state ''geminihub_chat_history_b1'' = Some ''[...]''"
    by (simp add: stored_state_def)
  from 0 1 2 d 3 p 4 show ?thesis by blast
qed

text \<open>
  Claim C10. The persistence effect leaves everything as it is when the message list is
  empty; the chat-history entry it leaves behind is the old one or the serialisation of a
  non-empty list, never that of an empty one; no other key changes; and run after a reset
  it leaves the key absent, until the list is non-empty again and the write is taken.
\<close>

theorem persist_only_nonempty:
  "(messages st = [] \<longrightarrow> persist_messages_effect J accepted st = st)
   \<and> (localStorage (persist_messages_effect J accepted st) (CHAT_STORAGE_KEY (route_id st))
        = localStorage st (CHAT_STORAGE_KEY (route_id st))
      \<or> messages st \<noteq> []
        \<and> localStorage (persist_messages_effect J accepted st) (CHAT_STORAGE_KEY (route_id st))
            = Some (stringify_messages J (messages st)))
   \<and> (messages st \<noteq> [] \<and> accepted \<longrightarrow>
        localStorage (persist_messages_effect J accepted st) (CHAT_STORAGE_KEY (route_id st))
          = Some (stringify_messages J (messages st)))
   \<and> (\<forall>k. k \<noteq> CHAT_STORAGE_KEY (route_id st) \<longrightarrow>
          localStorage (persist_messages_effect J accepted st) k = localStorage st k)
   \<and> localStorage (persist_messages_effect J accepted (reset_confirm st)) (CHAT_STORAGE_KEY (route_id st))
        = None"
  by (auto simp: persist_messages_effect_def reset_confirm_def)


theorem persist_only_nonempty_witness:
  "messages (reset_confirm stored_state) = []
   \<and> persist_messages_effect example_codec True (reset_confirm stored_state) = reset_confirm stored_state
   \<and> localStorage (persist_messages_effect example_codec True (reset_confirm stored_state))
        ''geminihub_chat_history_b1'' = None
   \<and> messages (send_begin example_run (reset_confirm stored_state)) \<noteq> []
   \<and> localStorage (persist_messages_effect example_codec True
         (send_begin example_run (reset_confirm stored_state))) ''geminihub_chat_history_b1''
        = Some ''[...]''"
proof -
  let ?r = "reset_confirm stored_state"
  let ?s = "send_begin example_run ?r"
  have m: "messages ?r = []" by (simp add: reset_confirm_def)
  have k: "CHAT_STORAGE_KEY (route_id ?r) = ''geminihub_chat_history_b1''"
    "CHAT_STORAGE_KEY (route_id ?s) = ''geminihub_chat_history_b1''"
    by (simp_all add: CHAT_STORAGE_KEY_def template_id_def reset_confirm_def send_begin_def
          stored_state_def example_state_def)
  have n: "messages ?s \<noteq> []" by (simp add: send_begin_def)
  from persist_only_nonempty [of ?r example_codec True] m
  have 1: "persist_messages_effect example_codec True ?r = ?r" by blast
  then have 2: "localStorage (persist_messages_effect example_codec True ?r)
        ''geminihub_chat_history_b1'' = None"
    by (simp add: reset_confirm_def CHAT_STORAGE_KEY_def template_id_def stored_state_def example_state_def)
  from persist_only_nonempty [of ?s example_codec True] n
  have "localStorage (persist_messages_effect example_codec True ?s) (CHAT_STORAGE_KEY (route_id ?s))
          = Some (stringify_messages example_codec (messages ?s))"
    by blast
  then have 3: "localStorage (persist_messages_effect example_codec True ?s)
        ''geminihub_chat_history_b1'' = Some ''[...]''"
    using n unfolding k by (simp add: example_codec_def)
  from m 1 2 n 3 show ?thesis by blast
qed

text \<open>
  Claim C7, amended. For a persisted string that fails to parse, the state initialisers
  of the first mount fall back to the empty list, for the chat history and for the notes;
  the reload effect falls back to the list of the single \<open>init\<close> greeting for the chat
  history.
\<close>

theorem rehydrate_fallbacks:
  "(ls (CHAT_STORAGE_KEY i) = Some saved \<and> parse_messages J saved = None
      \<longrightarrow> initial_messages J ls i = [])
   \<and> (ls (PANO_STORAGE_KEY i) = Some saved \<and> parse_notes J saved = None
      \<longrightarrow> initial_panoNotes J ls i = [])
   \<and> (localStorage st (CHAT_STORAGE_KEY (route_id st)) = Some saved \<and> parse_messages J saved = None
       \<and> current_bot st = Some b
      \<longrightarrow> messages (rehydrate_effect J now st) = [init_message b now])"
  by (simp add: initial_messages_def initial_panoNotes_def rehydrate_effect_def getItem_truthy_def)

text \<open>On the same failure the reload effect leaves the notes in memory untouched.\<close>

lemma rehydrate_notes_kept:
  "localStorage st (PANO_STORAGE_KEY (route_id st)) = Some saved \<Longrightarrow> parse_notes J saved = None
     \<Longrightarrow> panoNotes (rehydrate_effect J now st) = panoNotes st"
  by (simp add: rehydrate_effect_def getItem_truthy_def split: option.splits)

theorem rehydrate_fallbacks_witness:
  "localStorage corrupt_state (CHAT_STORAGE_KEY (Some ''b1'')) = Some ''{broken''
   \<and> localStorage corrupt_state (PANO_STORAGE_KEY (Some ''b1'')) = Some ''{broken''
   \<and> parse_messages example_codec ''{broken'' = None \<and> parse_notes example_codec ''{broken'' = None
   \<and> current_bot corrupt_state = Some example_bot
   \<and> initial_messages example_codec (localStorage corrupt_state) (Some ''b1'') = []
   \<and> initial_panoNotes example_codec (localStorage corrupt_state) (Some ''b1'') = []
   \<and> map msg_id (messages (rehydrate_effect example_codec 2000 corrupt_state)) = [''init'']"
proof -
  have c: "localStorage corrupt_state (CHAT_STORAGE_KEY (Some ''b1'')) = Some ''{broken''"
    and p: "localStorage corrupt_state (PANO_STORAGE_KEY (Some ''b1'')) = Some ''{broken''"
    by (simp_all add: corrupt_state_def CHAT_STORAGE_KEY_def PANO_STORAGE_KEY_def template_id_def)
  have pm: "parse_messages example_codec ''{broken'' = None"
    and pn: "parse_notes example_codec ''{broken'' = None"
    by (simp_all add: example_codec_def)
  have r: "route_id corrupt_state = Some ''b1''"
    by (simp add: corrupt_state_def example_state_def)
  have b: "current_bot corrupt_state = Some example_bot"
    by (simp add: current_bot_def corrupt_state_def example_state_def example_bot_def)
  note t = rehydrate_fallbacks [of "localStorage corrupt_state" "Some ''b1''" "''{broken''" example_codec
      corrupt_state example_bot 2000]
  from t c pm have 1: "initial_messages example_codec (localStorage corrupt_state) (Some ''b1'') = []"
    by blast
  from t p pn have 2: "initial_panoNotes example_codec (localStorage corrupt_state) (Some ''b1'') = []"
    by blast
  from t c pm b r have "messages (rehydrate_effect example_codec 2000 corrupt_state)
      = [init_message example_bot 2000]"
    by simp
  then have 3: "map msg_id (messages (rehydrate_effect example_codec 2000 corrupt_state)) = [''init'']"
    by (simp add: init_message_def)
  from c p pm pn b 1 2 3 show ?thesis by blast
qed

text \<open>
  Claim C7 as stated fails on the reload effect: over a chat-history entry that does not
  parse, the message list it sets is not empty.
\<close>

theorem rehydrate_not_empty_counterexample:
  "localStorage corrupt_state (CHAT_STORAGE_KEY (route_id corrupt_state)) = Some ''{broken''
   \<and> parse_messages example_codec ''{broken'' = None
   \<and> messages (rehydrate_effect example_codec 2000 corrupt_state) \<noteq> []"
  by (simp add: corrupt_state_def example_state_def example_codec_def rehydrate_effect_def
        current_bot_def getItem_truthy_def CHAT_STORAGE_KEY_def template_id_def example_bot_def)

section \<open>Properties of message identifiers\<close>

lemma toString_not_Nil: "toString n \<noteq> []"
  by (subst toString.simps) simp

lemma digit_char_inj: "a < 10 \<Longrightarrow> b < 10 \<Longrightarrow> digit_char a = digit_char b \<Longrightarrow> a = b"
  unfolding digit_char_def
  by (auto simp: char_of_eq_iff take_bit_eq_mod)

lemma last_toString: "last (toString n) = digit_char (n mod 10)"
  by (subst toString.simps) simp

lemma butlast_toString: "butlast (toString n) = (if n < 10 then [] else toString (n div 10))"
  by (subst toString.simps) (simp add: butlast_append)

lemma toString_inj: "toString n = toString m \<Longrightarrow> n = m"
proof (induction n arbitrary: m rule: toString.induct)
  case (1 n)
  from "1.prems" have l: "digit_char (n mod 10) = digit_char (m mod 10)"
    by (metis last_toString)
  then have md: "n mod 10 = m mod 10"
    by (intro digit_char_inj) simp_all
  from "1.prems" have b: "butlast (toString n) = butlast (toString m)" by simp
  show ?case
  proof (cases "n < 10")
    case True
    with b have "m < 10"
      using toString_not_Nil [of "m div 10"]
      by (auto simp: butlast_toString split: if_splits)
    with True md show ?thesis by simp
  next
    case False
    with b have m10: "\<not> m < 10" and "toString (n div 10) = toString (m div 10)"
      using toString_not_Nil [of "n div 10"]
      by (auto simp: butlast_toString  split: if_splits)
    with "1.IH" False have "n div 10 = m div 10" by blast
    with md show ?thesis
      by (metis div_mult_mod_eq)
  qed
qed

lemma toString_digits: "c \<in> set (toString n) \<Longrightarrow> is_digit c"
proof (induction n rule: toString.induct)
  case (1 n)
  have d: "is_digit (digit_char k)" if "k < 10" for k
    using that by (simp add: is_digit_def digit_char_def code_unit_def of_char_of)
  from "1.prems" have "c \<in> set (if n < 10 then [digit_char n] else toString (n div 10) @ [digit_char (n mod 10)])"
    by (subst (asm) toString.simps) simp
  with 1 d show ?case by (auto split: if_splits)
qed

lemma toString_not_init: "toString n \<noteq> ''init''"
proof
  assume "toString n = ''init''"
  then have "CHR ''i'' \<in> set (toString n)" by simp
  then have "is_digit CHR ''i''" by (rule toString_digits)
  then show False by (simp add: is_digit_def code_unit_def)
qed

lemma ids_before_fresh:
  assumes "ids_before c ms" and "c \<le> n"
  shows "toString n \<notin> set (map msg_id ms)"
proof
  assume "toString n \<in> set (map msg_id ms)"
  then obtain m where m: "m \<in> set ms" and i: "msg_id m = toString n" by auto
  from assms(1) m have "msg_id m = ''init'' \<or> (\<exists>k < c. msg_id m = toString k)"
    by (simp add: ids_before_def)
  then show False
  proof
    assume "msg_id m = ''init''"
    with i show False using toString_not_init [of n] by simp
  next
    assume "\<exists>k < c. msg_id m = toString k"
    then obtain k where "k < c" and "msg_id m = toString k" by blast
    with i have "k = n" using toString_inj [of k n] by simp
    with \<open>k < c\<close> assms(2) show False by simp
  qed
qed

lemma ids_before_mono: "ids_before c ms \<Longrightarrow> c \<le> d \<Longrightarrow> ids_before d ms"
  unfolding ids_before_def by (meson less_le_trans)

lemma ids_before_ids:
  "ids_before c ms \<longleftrightarrow> (\<forall>i \<in> set (map msg_id ms). i = ''init'' \<or> (\<exists>n < c. i = toString n))"
  by (auto simp: ids_before_def)

text \<open>
  Claim C9, amended. A send keeps the identifiers of the list pairwise distinct when they
  were distinct before, each of them is \<open>init\<close> or a clock reading below the send's first
  reading, the clock does not run backwards between the user message and the placeholder,
  and the image message is stamped at least two milliseconds after the placeholder's
  reading; afterwards every identifier is \<open>init\<close> or a reading up to that of the image
  message. The list a reset leaves and the list of the single \<open>init\<close> greeting are
  distinct as well.
\<close>

theorem send_keeps_ids_distinct:
  "(distinct (map msg_id (messages st)) \<and> ids_before (now_user_id run) (messages st)
      \<and> now_user_id run \<le> now_bot_id run \<and> now_bot_id run + 2 \<le> now_image_id run
     \<longrightarrow> distinct (map msg_id (messages (send run st)))
       \<and> ids_before (now_image_id run + 1) (messages (send run st)))
   \<and> distinct (map msg_id (messages (reset_confirm st)))
   \<and> ids_before c (messages (reset_confirm st))
   \<and> distinct (map msg_id [init_message b now]) \<and> ids_before c [init_message b now]"
proof (intro conjI impI)
  assume a: "distinct (map msg_id (messages st)) \<and> ids_before (now_user_id run) (messages st)
      \<and> now_user_id run \<le> now_bot_id run \<and> now_bot_id run + 2 \<le> now_image_id run"
  let ?nu = "now_user_id run" and ?nb = "now_bot_id run" and ?ni = "now_image_id run"
  let ?old = "map msg_id (messages st)"
  from a have d: "distinct ?old" and ib: "ids_before ?nu (messages st)"
    and c1: "?nu \<le> ?nb" and c2: "?nb + 2 \<le> ?ni"
    by simp_all
  have goal: "distinct (map msg_id (messages (send run st)))
       \<and> ids_before (?ni + 1) (messages (send run st))"
  proof (cases "send_blocked st")
    case True
    then have "send run st = st" by (simp add: send_def)
    with d ib c1 c2 show ?thesis by (auto intro: ids_before_mono)
  next
    case False
    from ids_send [OF False, of run] obtain extra where
      e: "map (\<lambda>m. (msg_id m, msg_role m)) (messages (send run st))
            = map (\<lambda>m. (msg_id m, msg_role m)) (messages st)
                @ [(toString ?nu, User), (botMsgId run, Model)] @ extra"
      and x: "extra = [] \<or> extra = [(toString ?ni, Model)]"
      by blast
    from e have "map fst (map (\<lambda>m. (msg_id m, msg_role m)) (messages (send run st)))
            = map fst (map (\<lambda>m. (msg_id m, msg_role m)) (messages st)
                @ [(toString ?nu, User), (botMsgId run, Model)] @ extra)"
      by (rule arg_cong)
    then have ids: "map msg_id (messages (send run st))
            = ?old @ [toString ?nu, toString (?nb + 1)] @ map fst extra"
      by (simp add: comp_def botMsgId_def)
    have f1: "toString ?nu \<notin> set ?old" using ib by (rule ids_before_fresh) simp
    have f2: "toString (?nb + 1) \<notin> set ?old" using c1 by (intro ids_before_fresh [OF ib]) simp
    have f3: "toString ?ni \<notin> set ?old" using c1 c2 by (intro ids_before_fresh [OF ib]) simp
    have n1: "toString ?nu \<noteq> toString (?nb + 1)" using c1 toString_inj [of ?nu "?nb + 1"] by auto
    have n2: "toString ?nu \<noteq> toString ?ni" using c1 c2 toString_inj [of ?nu ?ni] by auto
    have n3: "toString (?nb + 1) \<noteq> toString ?ni" using c2 toString_inj [of "?nb + 1" ?ni] by auto
    have old: "\<forall>i \<in> set ?old. i = ''init'' \<or> (\<exists>n < ?ni + 1. i = toString n)"
      using ids_before_mono [OF ib, of "?ni + 1"] c1 c2 by (simp add: ids_before_ids)
    have b1: "\<exists>n < ?ni + 1. toString ?nu = toString n" using c1 c2 by (intro exI [of _ ?nu]) simp
    have b2: "\<exists>n < ?ni + 1. toString (?nb + 1) = toString n" using c2 by (intro exI [of _ "?nb + 1"]) simp
    have b3: "\<exists>n < ?ni + 1. toString ?ni = toString n" by (intro exI [of _ ?ni]) simp
    from x show ?thesis
    proof
      assume "extra = []"
      with ids have i: "map msg_id (messages (send run st)) = ?old @ [toString ?nu, toString (?nb + 1)]"
        by simp
      have "distinct (?old @ [toString ?nu, toString (?nb + 1)])"
        using d f1 f2 n1 by simp
      moreover have "\<forall>i \<in> set (?old @ [toString ?nu, toString (?nb + 1)]).
          i = ''init'' \<or> (\<exists>n < ?ni + 1. i = toString n)"
        using old b1 b2 by simp
      ultimately show ?thesis unfolding ids_before_ids i by blast
    next
      assume "extra = [(toString ?ni, Model)]"
      with ids have i: "map msg_id (messages (send run st))
          = ?old @ [toString ?nu, toString (?nb + 1), toString ?ni]"
        by simp
      have "distinct (?old @ [toString ?nu, toString (?nb + 1), toString ?ni])"
        using d f1 f2 f3 n1 n2 n3 by simp
      moreover have "\<forall>i \<in> set (?old @ [toString ?nu, toString (?nb + 1), toString ?ni]).
          i = ''init'' \<or> (\<exists>n < ?ni + 1. i = toString n)"
        using old b1 b2 b3 by simp
      ultimately show ?thesis unfolding ids_before_ids i by blast
    qed
  qed
  from goal show "distinct (map msg_id (messages (send run st)))" ..
  from goal show "ids_before (?ni + 1) (messages (send run st))" ..
qed (simp_all add: reset_confirm_def ids_before_def init_message_def)

theorem send_keeps_ids_distinct_witness:
  "distinct (map msg_id (messages later_state)) \<and> ids_before (now_user_id later_run) (messages later_state)
   \<and> now_user_id later_run \<le> now_bot_id later_run \<and> now_bot_id later_run + 2 \<le> now_image_id later_run
   \<and> map msg_id (messages later_state) = [''1000'', ''1001'']
   \<and> distinct (map msg_id (messages (send later_run later_state)))"
proof -
  have m: "map msg_id (messages later_state) = [''1000'', ''1001'']"
    by (simp add: later_state_def)
  have t: "toString 1000 = ''1000''" "toString 1001 = ''1001''" by code_simp+
  have d: "distinct (map msg_id (messages later_state))" unfolding m by simp
  have c: "now_user_id later_run = 5000" "now_bot_id later_run = 5000" "now_image_id later_run = 5005"
    by (simp_all add: later_run_def)
  have "\<exists>n < 5000. ''1000'' = toString n" using t(1) by (intro exI [of _ 1000]) simp
  moreover have "\<exists>n < 5000. ''1001'' = toString n" using t(2) by (intro exI [of _ 1001]) simp
  ultimately have i: "ids_before (now_user_id later_run) (messages later_state)"
    unfolding ids_before_ids m c by simp
  have o: "now_user_id later_run \<le> now_bot_id later_run \<and> now_bot_id later_run + 2 \<le> now_image_id later_run"
    by (simp add: c)
  from send_keeps_ids_distinct [of later_state later_run] d i o
  have r: "distinct (map msg_id (messages (send later_run later_state)))" by blast
  from d i o m r show ?thesis by blast
qed

text \<open>
  Claim C9 as stated fails when a send starts one millisecond after the one before it:
  its user message takes the identifier of the earlier placeholder.
\<close>

theorem duplicate_ids_counterexample:
  "messages (send example_run example_state) = messages later_state
   \<and> \<not> send_blocked later_state
   \<and> now_user_id second_run = 1001
   \<and> \<not> distinct (map msg_id (messages (send second_run later_state)))"
proof -
  have r: "messages (send example_run example_state) = messages later_state"
    by code_simp
  have b: "\<not> send_blocked later_state"
    by code_simp
  have m: "map msg_id (messages later_state) = [''1000'', ''1001'']"
    by (simp add: later_state_def)
  have t: "toString (now_user_id second_run) = ''1001''"
    by code_simp
  have c: "now_user_id second_run = 1001" by (simp add: second_run_def)
  from ids_send [OF b, of second_run] obtain extra where
    "map (\<lambda>m. (msg_id m, msg_role m)) (messages (send second_run later_state))
       = map (\<lambda>m. (msg_id m, msg_role m)) (messages later_state)
           @ [(toString (now_user_id second_run), User), (botMsgId second_run, Model)] @ extra"
    by blast
  then have "map fst (map (\<lambda>m. (msg_id m, msg_role m)) (messages (send second_run later_state)))
       = map fst (map (\<lambda>m. (msg_id m, msg_role m)) (messages later_state)
           @ [(toString (now_user_id second_run), User), (botMsgId second_run, Model)] @ extra)"
    by (rule arg_cong)
  then have "map msg_id (messages (send second_run later_state))
       = [''1000'', ''1001'', ''1001'', botMsgId second_run] @ map fst extra"
    by (simp add: comp_def m t)
  then have "\<not> distinct (map msg_id (messages (send second_run later_state)))"
    by simp
  with r b c show ?thesis by blast
qed

section \<open>Properties of file names\<close>

lemma name_char_not_space: "is_name_char c \<Longrightarrow> \<not> is_space c"
  by (auto simp: is_name_char_def is_space_def is_lower_def is_upper_def is_digit_def code_unit_def)

lemma name_char_not_newline: "is_name_char c \<Longrightarrow> c \<noteq> CHR 0x0A"
  by (auto simp: is_name_char_def is_lower_def is_upper_def is_digit_def code_unit_def)

lemma getFilenameFromCode_directive:
  assumes "name \<noteq> []" and "\<forall>c \<in> set name. is_name_char c"
    and "rest = [] \<or> \<not> is_name_char (hd rest)"
  shows "getFilenameFromCode (''// filename: '' @ name @ rest) lang = JString name"
proof -
  let ?fl = "first_line rest"
  have fl: "first_line (''// filename: '' @ name @ rest) = ''// filename: '' @ name @ ?fl"
    using assms(2) name_char_not_newline
    by (simp add: first_line_def takeWhile_append2 takeWhile_eq_all_conv[THEN iffD2])
  have h: "?fl = [] \<or> \<not> is_name_char (hd ?fl)"
    using assms(3) by (cases rest) (auto simp: first_line_def)
  obtain n ns where n: "name = n # ns" using assms(1) by (cases name) auto
  have nsp: "\<not> is_space n" using assms(2) n name_char_not_space by simp
  have tw: "takeWhile is_name_char (name @ ?fl) = name"
    using assms(2) h by (cases ?fl) (simp_all add: takeWhile_append2 takeWhile_eq_all_conv[THEN iffD2])
  have "filename_directive_at (''// filename: '' @ name @ ?fl) = Some name"
    using tw assms(1) nsp
    by (simp add: filename_directive_at_def startsWith_def startsWith_ci_def Let_def is_space_def
          code_unit_def n)
  then have "leftmost filename_directive_at (''// filename: '' @ name @ ?fl) = Some name"
    by simp
  then have L: "leftmost filename_directive_at (first_line (''// filename: '' @ name @ rest)) = Some name"
    unfolding fl .
  show ?thesis unfolding getFilenameFromCode_def L by simp
qed

lemma getFilenameFromCode_default:
  assumes "leftmost filename_directive_at (first_line code) = None"
  shows "getFilenameFromCode code ''html'' = JString ''index.html''"
    and "getFilenameFromCode code ''js'' = JString ''script.js''"
    and "getFilenameFromCode code ''css'' = JString ''style.css''"
  using assms
  by (simp_all add: getFilenameFromCode_def extMap_get_def extMap_def toLowerCase_def lower_char_def
        is_upper_def code_unit_def)

lemma getFilenameFromCode_fallback:
  assumes "leftmost filename_directive_at (first_line code) = None"
    and "lang \<noteq> []"
    and "toLowerCase lang \<notin> {''html'', ''js'', ''css''}"
    and "toLowerCase lang \<notin> set Object_prototype_names"
  shows "getFilenameFromCode code lang = JString (''file.'' @ lang)"
proof -
  from assms(3) have "extMap (toLowerCase lang) = None"
    by (simp add: extMap_def)
  with assms(4) have "extMap_get (toLowerCase lang) = None"
    by (simp add: extMap_get_def)
  with assms(1,2) show ?thesis
    by (simp add: getFilenameFromCode_def)
qed

lemma no_directive_without_slashes:
  assumes "CHR ''/'' \<notin> set s"
  shows "leftmost filename_directive_at s = None"
  using assms
proof (induction s)
  case Nil
  show ?case by (simp add: filename_directive_at_def startsWith_def)
next
  case (Cons c cs)
  then have "filename_directive_at (c # cs) = None"
    by (auto simp: filename_directive_at_def startsWith_def)
  with Cons show ?case by simp
qed

lemma getFilenameFromCode_examples:
  "getFilenameFromCode ''// filename: app.ts\<newline>let x = 1'' ''html'' = JString ''app.ts''"
  "getFilenameFromCode ''<p>hi</p>'' ''html'' = JString ''index.html''"
  "getFilenameFromCode ''x'' ''foo'' = JString ''file.foo''"
  by code_simp+

text \<open>
  Claim C3 holds for every language tag but the ones that, in lower case, name a property
  every object inherits (lemmas \<open>getFilenameFromCode_directive\<close>,
  \<open>getFilenameFromCode_default\<close> and \<open>getFilenameFromCode_fallback\<close>). For the tag
  \<open>constructor\<close>, which a fenced block of a reply can carry, the lookup in \<open>extMap\<close>
  finds the inherited property: the result is that object and not the string
  \<open>file.constructor\<close>; likewise for \<open>__proto__\<close>.
\<close>

theorem getFilenameFromCode_inherited_name:
  "codeMatch (fence @ ''constructor\<newline>x'' @ fence) = Some (Some ''constructor'', ''x'')
   \<and> getFilenameFromCode ''x'' ''constructor'' = JBuiltin ''constructor''
   \<and> getFilenameFromCode ''x'' ''constructor'' \<noteq> JString ''file.constructor''
   \<and> getFilenameFromCode ''x'' ''__proto__'' = JBuiltin ''__proto__''"
  by code_simp

section \<open>Properties of notes\<close>

lemma bracket_not_space: "\<not> is_space CHR '']''"
  by (simp add: is_space_def code_unit_def)

lemma startsWithD: "startsWith s p \<Longrightarrow> s = p @ drop (length p) s"
  unfolding startsWith_def by (metis append_take_drop_id)

lemma tag_prefix:
  assumes "startsWith s ''[GENERATE_IMAGE:'' \<or> startsWith s ''[GENERATE_VIDEO:''"
  shows "s = ''[GENERATE_IMAGE:'' @ drop 16 s \<or> s = ''[GENERATE_VIDEO:'' @ drop 16 s"
proof -
  have li: "length ''[GENERATE_IMAGE:'' = 16" and lv: "length ''[GENERATE_VIDEO:'' = 16"
    by simp_all
  from assms show ?thesis
  proof
    assume "startsWith s ''[GENERATE_IMAGE:''"
    from startsWithD [OF this] have "s = ''[GENERATE_IMAGE:'' @ drop 16 s" unfolding li .
    then show ?thesis ..
  next
    assume "startsWith s ''[GENERATE_VIDEO:''"
    from startsWithD [OF this] have "s = ''[GENERATE_VIDEO:'' @ drop 16 s" unfolding lv .
    then show ?thesis ..
  qed
qed

lemma is_directive_iff:
  "is_directive d \<longleftrightarrow>
     (\<exists>region. (d = ''[GENERATE_IMAGE:'' @ region @ '']'' \<or> d = ''[GENERATE_VIDEO:'' @ region @ '']'')
        \<and> CHR '']'' \<notin> set region
        \<and> \<not> (\<exists>c \<in> set (dropWhile is_space region). is_line_terminator c))"
proof
  assume a: "is_directive d"
  then obtain z rr where r: "rev (drop 16 d) = z # rr" and z: "z = CHR '']''"
    and n: "CHR '']'' \<notin> set rr"
    and l: "\<not> (\<exists>c \<in> set (dropWhile is_space (rev rr)). is_line_terminator c)"
    by (auto simp: is_directive_def split: list.splits)
  from r have dr: "drop 16 d = rev rr @ [z]"
    by (metis rev.simps(2) rev_rev_ident)
  from a have "startsWith d ''[GENERATE_IMAGE:'' \<or> startsWith d ''[GENERATE_VIDEO:''"
    by (simp add: is_directive_def)
  then have "d = ''[GENERATE_IMAGE:'' @ drop 16 d \<or> d = ''[GENERATE_VIDEO:'' @ drop 16 d"
    by (rule tag_prefix)
  then have "d = ''[GENERATE_IMAGE:'' @ rev rr @ '']'' \<or> d = ''[GENERATE_VIDEO:'' @ rev rr @ '']''"
    unfolding dr z by simp
  with n l show "\<exists>region. (d = ''[GENERATE_IMAGE:'' @ region @ '']'' \<or> d = ''[GENERATE_VIDEO:'' @ region @ '']'')
        \<and> CHR '']'' \<notin> set region
        \<and> \<not> (\<exists>c \<in> set (dropWhile is_space region). is_line_terminator c)"
    by (intro exI [of _ "rev rr"]) simp
next
  assume "\<exists>region. (d = ''[GENERATE_IMAGE:'' @ region @ '']'' \<or> d = ''[GENERATE_VIDEO:'' @ region @ '']'')
        \<and> CHR '']'' \<notin> set region
        \<and> \<not> (\<exists>c \<in> set (dropWhile is_space region). is_line_terminator c)"
  then show "is_directive d"
    by (auto simp: is_directive_def startsWith_def)
qed

lemma directive_tail_region:
  assumes "CHR '']'' \<notin> set region"
    and "\<not> (\<exists>c \<in> set (dropWhile is_space region). is_line_terminator c)"
  shows "directive_tail (region @ CHR '']'' # b) = Some (dropWhile is_space region, b)"
proof -
  let ?d = "dropWhile is_space region"
  have r1: "dropWhile is_space (region @ CHR '']'' # b) = ?d @ CHR '']'' # b"
    using bracket_not_space by (simp add: dropWhile_append)
  have sub: "set ?d \<subseteq> set region" by (rule set_dropWhileD [THEN subsetI])
  with assms(1) have nb: "\<forall>c \<in> set ?d. c \<noteq> CHR '']''" by auto
  from nb have tw: "takeWhile (\<lambda>c. c \<noteq> CHR '']'') (?d @ CHR '']'' # b) = ?d"
    by (simp add: takeWhile_tail)
  from nb have dw: "dropWhile (\<lambda>c. c \<noteq> CHR '']'') (?d @ CHR '']'' # b) = CHR '']'' # b"
    by (simp add: dropWhile_append)
  show ?thesis
    unfolding directive_tail_def r1 Let_def tw dw using assms(2) by simp
qed

lemma generate_directive_at_directive:
  assumes "is_directive d"
  shows "\<exists>b. generate_directive_at (d @ rest) = Some (b, rest)"
proof -
  from assms obtain region where
    d: "d = ''[GENERATE_IMAGE:'' @ region @ '']'' \<or> d = ''[GENERATE_VIDEO:'' @ region @ '']''"
    and n: "CHR '']'' \<notin> set region"
    and l: "\<not> (\<exists>c \<in> set (dropWhile is_space region). is_line_terminator c)"
    unfolding is_directive_iff by blast
  from directive_tail_region [OF n l, of rest]
  have t: "directive_tail (region @ CHR '']'' # rest) = Some (dropWhile is_space region, rest)" .
  from d show ?thesis
  proof
    assume "d = ''[GENERATE_IMAGE:'' @ region @ '']''"
    with t have "generate_directive_at (d @ rest) = Some (dropWhile is_space region, rest)"
      by (simp add: generate_directive_at_def startsWith_def)
    then show ?thesis ..
  next
    assume "d = ''[GENERATE_VIDEO:'' @ region @ '']''"
    with t have "generate_directive_at (d @ rest) = Some (dropWhile is_space region, rest)"
      by (simp add: generate_directive_at_def startsWith_def)
    then show ?thesis ..
  qed
qed

lemma directive_tail_Some:
  assumes "directive_tail r = Some (b, rest)"
  shows "\<exists>region. r = region @ CHR '']'' # rest \<and> CHR '']'' \<notin> set region
           \<and> \<not> (\<exists>c \<in> set (dropWhile is_space region). is_line_terminator c)"
proof -
  let ?w = "takeWhile is_space r"
  let ?r1 = "dropWhile is_space r"
  let ?body = "takeWhile (\<lambda>c. c \<noteq> CHR '']'') ?r1"
  let ?dr = "dropWhile (\<lambda>c. c \<noteq> CHR '']'') ?r1"
  from assms have ne: "?dr \<noteq> []" and rest: "rest = tl ?dr"
    and nl: "\<not> (\<exists>c \<in> set ?body. is_line_terminator c)"
    by (auto simp: directive_tail_def Let_def split: if_splits)
  from ne have "hd ?dr = CHR '']''" using hd_dropWhile [of "\<lambda>c. c \<noteq> CHR '']''" ?r1] by auto
  with ne rest have dr: "?dr = CHR '']'' # rest" by (cases ?dr) auto
  have "r = ?w @ ?r1" by simp
  also have "?r1 = ?body @ ?dr" by simp
  finally have r: "r = (?w @ ?body) @ CHR '']'' # rest" using dr by simp
  have w: "\<forall>c \<in> set ?w. is_space c" by (auto dest: set_takeWhileD)
  have nb: "CHR '']'' \<notin> set (?w @ ?body)"
    using w bracket_not_space by (auto dest: set_takeWhileD)
  have "dropWhile is_space (?w @ ?body) = dropWhile is_space ?body"
    using w by (simp add: dropWhile_append)
  moreover have "set (dropWhile is_space ?body) \<subseteq> set ?body"
    by (rule set_dropWhileD [THEN subsetI])
  ultimately have "\<not> (\<exists>c \<in> set (dropWhile is_space (?w @ ?body)). is_line_terminator c)"
    using nl by auto
  with r nb show ?thesis by blast
qed

lemma generate_directive_at_Some:
  assumes "generate_directive_at s = Some (b, rest)"
  shows "\<exists>d. is_directive d \<and> s = d @ rest"
proof -
  from assms have st: "startsWith s ''[GENERATE_IMAGE:'' \<or> startsWith s ''[GENERATE_VIDEO:''"
    and dt: "directive_tail (drop 16 s) = Some (b, rest)"
    by (auto simp: generate_directive_at_def split: if_splits)
  from directive_tail_Some [OF dt] obtain region where
    r: "drop 16 s = region @ CHR '']'' # rest" and n: "CHR '']'' \<notin> set region"
    and l: "\<not> (\<exists>c \<in> set (dropWhile is_space region). is_line_terminator c)"
    by blast
  from st have "s = ''[GENERATE_IMAGE:'' @ drop 16 s \<or> s = ''[GENERATE_VIDEO:'' @ drop 16 s"
    by (rule tag_prefix)
  then show ?thesis
  proof
    assume "s = ''[GENERATE_IMAGE:'' @ drop 16 s"
    then have "s = (''[GENERATE_IMAGE:'' @ region @ '']'') @ rest" unfolding r by simp
    moreover have "is_directive (''[GENERATE_IMAGE:'' @ region @ '']'')"
      unfolding is_directive_iff using n l by blast
    ultimately show ?thesis by blast
  next
    assume "s = ''[GENERATE_VIDEO:'' @ drop 16 s"
    then have "s = (''[GENERATE_VIDEO:'' @ region @ '']'') @ rest" unfolding r by simp
    moreover have "is_directive (''[GENERATE_VIDEO:'' @ region @ '']'')"
      unfolding is_directive_iff using n l by blast
    ultimately show ?thesis by blast
  qed
qed

lemma is_directive_not_Nil: "is_directive d \<Longrightarrow> d \<noteq> []"
  by (auto simp: is_directive_def startsWith_def)

lemma strip_directives_at_directive:
  assumes "is_directive d"
  shows "strip_directives (d @ rest) = strip_directives rest"
proof -
  from is_directive_not_Nil [OF assms] obtain c cs where d: "d = c # cs" by (cases d) auto
  from generate_directive_at_directive [OF assms, of rest] obtain b
    where g: "generate_directive_at (d @ rest) = Some (b, rest)" ..
  have "strip_directives ((c # cs) @ rest) = strip_directives rest"
    using g [unfolded d] by simp
  then show ?thesis unfolding d .
qed

lemma strip_directives_no_directive:
  assumes "\<not> starts_with_directive (c # cs)"
  shows "strip_directives (c # cs) = c # strip_directives cs"
proof -
  have "generate_directive_at (c # cs) = None"
  proof (rule ccontr)
    assume "generate_directive_at (c # cs) \<noteq> None"
    then obtain b rest where "generate_directive_at (c # cs) = Some (b, rest)" by auto
    from generate_directive_at_Some [OF this] obtain d
      where d: "is_directive d" and s: "c # cs = d @ rest" by blast
    from s have "take (length d) (c # cs) = d" by simp
    moreover from s have "length d \<le> length (c # cs)"
      by (metis length_append le_add1)
    ultimately have "starts_with_directive (c # cs)"
      unfolding starts_with_directive_def using d
      by (intro bexI [of _ "length d"]) auto
    with assms show False ..
  qed
  then show ?thesis by simp
qed


lemma starts_with_directive_iff:
  "starts_with_directive s \<longleftrightarrow> (\<exists>d rest. is_directive d \<and> s = d @ rest)"
proof
  assume "starts_with_directive s"
  then obtain n where "is_directive (take n s)"
    unfolding starts_with_directive_def by blast
  moreover have "s = take n s @ drop n s" by simp
  ultimately show "\<exists>d rest. is_directive d \<and> s = d @ rest" by blast
next
  assume "\<exists>d rest. is_directive d \<and> s = d @ rest"
  then obtain d rest where d: "is_directive d" and s: "s = d @ rest" by blast
  from s have "take (length d) s = d" by simp
  moreover from s have "length d \<le> length s" by simp
  ultimately show "starts_with_directive s"
    unfolding starts_with_directive_def using d
    by (intro bexI [of _ "length d"]) auto
qed

text \<open>
  Claim C6, amended. A note that is saved goes to the head of the notes list and the rest
  of the list stays as it was; nothing is saved when the text trims to nothing. The manual
  form saves the trimmed text with source \<open>user\<close>. Saving from a message gives source
  \<open>bot\<close> and the trimmed result of one scan of the text from the left: where a
  directive begins (the tag, then text up to the first closing bracket with no line break
  past its leading white space) it is cut out whole and the scan goes on right behind it;
  every other character is kept. What the scan leaves is not scanned again.
\<close>

theorem notes_are_prepended:
  "(trim (manualNoteText st) \<noteq> [] \<longrightarrow>
      panoNotes (handleManualNoteSave now_id now_ts st)
        = \<lparr>note_id = toString now_id, note_text = trim (manualNoteText st),
           note_timestamp = now_ts, source = Some FromUser\<rparr> # panoNotes st)
   \<and> (trim (manualNoteText st) = [] \<longrightarrow> handleManualNoteSave now_id now_ts st = st)
   \<and> (trim (strip_directives reply) \<noteq> [] \<longrightarrow>
      panoNotes (handleSaveToPano now_id now_ts reply st)
        = \<lparr>note_id = toString now_id, note_text = trim (strip_directives reply),
           note_timestamp = now_ts, source = Some FromBot\<rparr> # panoNotes st)
   \<and> (trim (strip_directives reply) = [] \<longrightarrow> handleSaveToPano now_id now_ts reply st = st)
   \<and> strip_directives [] = []
   \<and> (is_directive d \<longrightarrow> strip_directives (d @ rest) = strip_directives rest)
   \<and> (\<not> starts_with_directive (c # cs) \<longrightarrow> strip_directives (c # cs) = c # strip_directives cs)
   \<and> (starts_with_directive s \<longleftrightarrow> (\<exists>d rest. is_directive d \<and> s = d @ rest))"
proof (intro conjI impI)
  show "strip_directives (d @ rest) = strip_directives rest" if "is_directive d"
    using that by (rule strip_directives_at_directive)
  show "strip_directives (c # cs) = c # strip_directives cs" if "\<not> starts_with_directive (c # cs)"
    using that by (rule strip_directives_no_directive)
  show "starts_with_directive s \<longleftrightarrow> (\<exists>d rest. is_directive d \<and> s = d @ rest)"
    by (rule starts_with_directive_iff)
qed (simp_all add: handleManualNoteSave_def handleSaveToPano_def Let_def)

theorem notes_are_prepended_witness:
  "trim (manualNoteText example_state) \<noteq> []
   \<and> panoNotes (handleManualNoteSave 1700 1701 example_state)
       = [\<lparr>note_id = ''1700'', note_text = ''buy milk'', note_timestamp = 1701,
           source = Some FromUser\<rparr>]
   \<and> trim (strip_directives ''See [docs](http://x.y) [GENERATE_IMAGE: a cat] end'') \<noteq> []
   \<and> panoNotes (handleSaveToPano 1800 1801 ''See [docs](http://x.y) [GENERATE_IMAGE: a cat] end''
        (handleManualNoteSave 1700 1701 example_state))
       = [\<lparr>note_id = ''1800'', note_text = ''See [docs](http://x.y)  end'', note_timestamp = 1801,
           source = Some FromBot\<rparr>,
          \<lparr>note_id = ''1700'', note_text = ''buy milk'', note_timestamp = 1701,
           source = Some FromUser\<rparr>]
   \<and> is_directive ''[GENERATE_IMAGE: a cat]''
   \<and> strip_directives (''[GENERATE_IMAGE: a cat]'' @ '' end'') = '' end''
   \<and> \<not> starts_with_directive ''[docs] [GENERATE_VIDEO:x]''
   \<and> strip_directives ''[docs] [GENERATE_VIDEO:x]'' = ''[docs] ''"
proof -
  let ?s1 = "handleManualNoteSave 1700 1701 example_state"
  let ?t = "''See [docs](http://x.y) [GENERATE_IMAGE: a cat] end''"
  have m: "trim (manualNoteText example_state) = ''buy milk''" by code_simp
  have g: "trim (strip_directives ?t) = ''See [docs](http://x.y)  end''" by code_simp
  have i: "toString 1700 = ''1700''" "toString 1800 = ''1800''" by code_simp+
  have p: "panoNotes example_state = []" by (simp add: example_state_def)
  from notes_are_prepended [where st = example_state and now_id = 1700 and now_ts = 1701] m
  have 1: "panoNotes ?s1 = [\<lparr>note_id = ''1700'', note_text = ''buy milk'', note_timestamp = 1701,
           source = Some FromUser\<rparr>]"
    by (simp add: i p)
  from notes_are_prepended [where st = "?s1" and reply = "?t" and now_id = 1800 and now_ts = 1801] g
  have 2: "panoNotes (handleSaveToPano 1800 1801 ?t ?s1)
       = \<lparr>note_id = ''1800'', note_text = ''See [docs](http://x.y)  end'', note_timestamp = 1801,
           source = Some FromBot\<rparr> # panoNotes ?s1"
    by (simp add: i)
  have d: "is_directive ''[GENERATE_IMAGE: a cat]''" by code_simp
  have e: "strip_directives '' end'' = '' end''" by code_simp
  from notes_are_prepended [where d = "''[GENERATE_IMAGE: a cat]''" and rest = "'' end''"] d e
  have 3: "strip_directives (''[GENERATE_IMAGE: a cat]'' @ '' end'') = '' end''"
    by simp
  have n: "\<not> starts_with_directive ''[docs] [GENERATE_VIDEO:x]''" by code_simp
  have r: "strip_directives ''docs] [GENERATE_VIDEO:x]'' = ''docs] ''" by code_simp
  from notes_are_prepended [where c = "CHR ''[''" and cs = "''docs] [GENERATE_VIDEO:x]''"] n r
  have 4: "strip_directives ''[docs] [GENERATE_VIDEO:x]'' = ''[docs] ''"
    by simp
  from m g 1 2 d 3 n 4 show ?thesis by simp
qed

text \<open>
  Claim C6 as stated fails where the text around a removed directive closes up to a new
  one: the note that is saved is a directive.
\<close>

theorem nested_directive_counterexample:
  "map note_text (panoNotes (handleSaveToPano 1800 1801 ''[GENERATE_[GENERATE_IMAGE: x]IMAGE: y]''
      example_state)) = [''[GENERATE_IMAGE: y]'']
   \<and> is_directive ''[GENERATE_IMAGE: y]''"
  by code_simp

section \<open>Properties of rendering\<close>

lemma startsWith_append: "startsWith (p @ s) p"
  by (simp add: startsWith_def)

lemma length_fence: "length fence = 3"
  by (simp add: fence_def)

lemma drop_append_le: "n \<le> length xs \<Longrightarrow> drop n (xs @ ys) = drop n xs @ ys"
  by simp

lemma find_fence_Some: "find_fence s = Some (a, b) \<Longrightarrow> s = a @ fence @ b"
proof (induction s arbitrary: a b)
  case Nil
  then show ?case by simp
next
  case (Cons c cs)
  show ?case
  proof (cases "startsWith (c # cs) fence")
    case True
    from startsWithD [OF True] have e: "c # cs = fence @ drop 3 (c # cs)"
      unfolding length_fence .
    from Cons.prems True have "Some ([], drop 3 (c # cs)) = Some (a, b)"
      by (simp only: find_fence.simps if_True)
    then have a: "[] = a" and b: "drop 3 (c # cs) = b" by simp_all
    show ?thesis unfolding a [symmetric] b [symmetric] by (subst append_Nil) (rule e)
  next
    case False
    with Cons.prems obtain a' where "find_fence cs = Some (a', b)" and "a = c # a'"
      by auto
    with Cons.IH show ?thesis by simp
  qed
qed

lemma find_fence_append: "find_fence (p @ fence @ q) \<noteq> None"
proof (induction p)
  case Nil
  have "startsWith (fence @ q) fence" by (rule startsWith_append)
  then show ?case by (simp add: fence_def)
next
  case (Cons c cs)
  then show ?case by auto
qed

lemma find_fence_min: "find_fence (p @ fence @ q) = Some (a, b) \<Longrightarrow> length a \<le> length p"
proof (induction p arbitrary: a)
  case Nil
  have "startsWith (fence @ q) fence" by (rule startsWith_append)
  with Nil show ?case by (simp add: fence_def)
next
  case (Cons c cs)
  show ?case
  proof (cases "startsWith (c # cs @ fence @ q) fence")
    case True
    with Cons.prems show ?thesis by simp
  next
    case False
    with Cons.prems obtain a' where "find_fence (cs @ fence @ q) = Some (a', b)" and "a = c # a'"
      by auto
    with Cons.IH show ?thesis by simp
  qed
qed

lemma find_fence_pre: "find_fence s = Some (a, b) \<Longrightarrow> find_fence a = None"
proof (induction s arbitrary: a)
  case Nil
  then show ?case by simp
next
  case (Cons c cs)
  show ?case
  proof (cases "startsWith (c # cs) fence")
    case True
    with Cons.prems show ?thesis by simp
  next
    case False
    with Cons.prems obtain a' where f: "find_fence cs = Some (a', b)" and a: "a = c # a'"
      by auto
    from f have s: "cs = a' @ fence @ b" by (rule find_fence_Some)
    have "\<not> startsWith (c # a') fence"
    proof
      assume "startsWith (c # a') fence"
      then have "c # a' = fence @ drop (length fence) (c # a')" by (rule startsWithD)
      then have "c # cs = fence @ (drop (length fence) (c # a') @ fence @ b)"
        using s by simp
      then have "startsWith (c # cs) fence"
        using startsWith_append by metis
      with False show False ..
    qed
    with Cons.IH [OF f] a show ?thesis by simp
  qed
qed

lemma find_fence_closing:
  assumes "find_fence s = Some (a, b)"
  shows "find_fence (a @ fence) = Some (a, [])"
proof -
  from assms have s: "s = a @ fence @ b" by (rule find_fence_Some)
  from find_fence_append [of a "[]"] obtain x y where f: "find_fence (a @ fence) = Some (x, y)"
    by auto
  then have e: "a @ fence = x @ fence @ y" by (rule find_fence_Some)
  from f find_fence_min [of a "[]" x y] have le: "length x \<le> length a" by simp
  from e s have "s = x @ fence @ (y @ b)" by simp
  with assms find_fence_min [of x "y @ b" a b] have "length a \<le> length x" by simp
  with le have "length x = length a" by simp
  with e have "x = a" and "y = []" by auto
  with f show ?thesis by simp
qed

lemma leftmost_Some: "leftmost m s = Some x \<Longrightarrow> \<exists>p t. s = p @ t \<and> m t = Some x"
proof (induction s)
  case Nil
  then show ?case by simp
next
  case (Cons c cs)
  show ?case
  proof (cases "m (c # cs)")
    case None
    with Cons obtain p t where "cs = p @ t" and "m t = Some x" by auto
    then have "c # cs = (c # p) @ t \<and> m t = Some x" by simp
    then show ?thesis by blast
  next
    case (Some r)
    with Cons.prems have "c # cs = [] @ (c # cs) \<and> m (c # cs) = Some x" by simp
    then show ?thesis by blast
  qed
qed

lemma code_fence_at_Some:
  assumes "code_fence_at t = Some x"
  shows "\<exists>m d. t = fence @ m @ fence @ d"
proof -
  let ?r = "drop 3 t"
  let ?r1 = "dropWhile is_word ?r"
  let ?r2 = "if startsWith ?r1 [CHR 0x0A] then drop 1 ?r1 else ?r1"
  from assms have sw: "startsWith t fence"
    by (simp add: code_fence_at_def split: if_splits)
  from startsWithD [OF sw] have t: "t = fence @ ?r" unfolding length_fence .
  from assms sw obtain content rest where ff: "find_fence ?r2 = Some (content, rest)"
    by (auto simp: code_fence_at_def Let_def split: option.splits)
  then have r2: "?r2 = content @ fence @ rest" by (rule find_fence_Some)
  have "\<exists>w. ?r1 = w @ ?r2"
  proof (cases "startsWith ?r1 [CHR 0x0A]")
    case True
    then have "?r1 = take 1 ?r1 @ ?r2" by simp
    then show ?thesis ..
  next
    case False
    then have "?r1 = [] @ ?r2" by simp
    then show ?thesis ..
  qed
  then obtain w where "?r1 = w @ ?r2" ..
  moreover have "?r = takeWhile is_word ?r @ ?r1" by simp
  ultimately have "?r = (takeWhile is_word ?r @ w) @ ?r2" by simp
  with r2 have "?r = (takeWhile is_word ?r @ w @ content) @ fence @ rest" by simp
  with t have "t = fence @ (takeWhile is_word ?r @ w @ content) @ fence @ rest" by metis
  then show ?thesis by blast
qed

lemma codeMatch_Some:
  assumes "codeMatch s = Some x"
  shows "\<exists>pre after. find_fence s = Some (pre, after) \<and> find_fence after \<noteq> None"
proof -
  from assms obtain p t where s: "s = p @ t" and c: "code_fence_at t = Some x"
    unfolding codeMatch_def by (blast dest: leftmost_Some)
  from code_fence_at_Some [OF c] obtain m d where t: "t = fence @ m @ fence @ d" by blast
  with s have s': "s = p @ fence @ (m @ fence @ d)" by simp
  with find_fence_append [of p "m @ fence @ d"] obtain pre after
    where f: "find_fence s = Some (pre, after)" by auto
  with s' find_fence_min [of p "m @ fence @ d" pre after] have le: "length pre \<le> length p" by simp
  from f have e: "s = pre @ fence @ after" by (rule find_fence_Some)
  then have "after = drop (length pre + 3) s" by (simp add: fence_def)
  also have "\<dots> = drop (length pre + 3) ((p @ fence @ m) @ fence @ d)" using s' by simp
  also have "\<dots> = drop (length pre + 3) (p @ fence @ m) @ fence @ d"
    using le by (intro drop_append_le) (simp add: length_fence)
  finally have "find_fence after \<noteq> None" using find_fence_append by metis
  with f show ?thesis by blast
qed

lemma backtick_not_word: "\<not> is_word (CHR 0x60)"
  by (simp add: is_word_def is_upper_def is_lower_def is_digit_def code_unit_def)

lemma codeMatch_closed: "codeMatch (fence @ inner @ fence) \<noteq> None"
proof -
  let ?r = "inner @ fence"
  let ?r1 = "dropWhile is_word ?r"
  let ?r2 = "if startsWith ?r1 [CHR 0x0A] then drop 1 ?r1 else ?r1"
  have d3: "drop 3 (fence @ inner @ fence) = ?r" by (simp add: fence_def)
  have r1: "?r1 = dropWhile is_word inner @ fence"
    using backtick_not_word by (simp add: dropWhile_append fence_def)
  have "\<exists>w. ?r2 = w @ fence @ []"
  proof (cases "dropWhile is_word inner")
    case Nil
    with r1 have "?r2 = [] @ fence @ []" by (simp add: startsWith_def fence_def)
    then show ?thesis ..
  next
    case (Cons c cs)
    with r1 have "?r2 = (if c = CHR 0x0A then cs else c # cs) @ fence @ []"
      by (simp add: startsWith_def)
    then show ?thesis ..
  qed
  then obtain w where "?r2 = w @ fence @ []" ..
  with find_fence_append [of w "[]"] obtain c r where ff: "find_fence ?r2 = Some (c, r)"
    by auto
  have sw: "startsWith (fence @ inner @ fence) fence" by (rule startsWith_append)
  define whole where "whole = fence @ inner @ fence"
  have "code_fence_at (fence @ inner @ fence)
          = Some (if takeWhile is_word ?r = [] then None else Some (takeWhile is_word ?r), c)"
    unfolding code_fence_at_def d3 Let_def ff using sw by simp
  then obtain v where cf: "code_fence_at whole = Some v"
    unfolding whole_def by blast
  obtain c0 cs0 where w: "whole = c0 # cs0"
    unfolding whole_def fence_def by auto
  from cf have "leftmost code_fence_at whole = Some v"
    unfolding w by simp
  then show ?thesis
    unfolding codeMatch_def whole_def by simp
qed


lemma codeMatch_unpaired:
  assumes "find_fence s = None \<or> (\<exists>pre after. find_fence s = Some (pre, after) \<and> find_fence after = None)"
  shows "codeMatch s = None"
proof (rule ccontr)
  assume "codeMatch s \<noteq> None"
  then obtain x where "codeMatch s = Some x" by auto
  from codeMatch_Some [OF this] assms show False by auto
qed

lemma split_fences_structure:
  "odd (length (split_fences s)) \<and> concat (split_fences s) = s
   \<and> (\<forall>i < length (split_fences s).
        if odd i
        then (\<exists>inner. split_fences s ! i = fence @ inner @ fence
                \<and> find_fence (inner @ fence) = Some (inner, []))
        else codeMatch (split_fences s ! i) = None)"
proof (induction s rule: split_fences.induct)
  case (1 s)
  have single: ?case if u: "find_fence s = None
      \<or> (\<exists>pre after. find_fence s = Some (pre, after) \<and> find_fence after = None)"
  proof -
    from u have "split_fences s = [s]"
      by (subst split_fences.simps) auto
    with codeMatch_unpaired [OF u] show ?thesis by simp
  qed
  show ?case
  proof (cases "find_fence s")
    case None
    then show ?thesis by (intro single) simp
  next
    case (Some pa)
    obtain pre after where pa: "pa = (pre, after)" by (cases pa)
    show ?thesis
    proof (cases "find_fence after")
      case None
      with Some pa show ?thesis by (intro single) simp
    next
      case Some2: (Some ir)
      obtain inner rest where ir: "ir = (inner, rest)" by (cases ir)
      let ?xs = "split_fences rest"
      from Some pa have f1: "find_fence s = Some (pre, after)" by simp
      from Some2 ir have f2: "find_fence after = Some (inner, rest)" by simp
      have sp: "split_fences s = pre # (fence @ inner @ fence) # ?xs"
        by (subst split_fences.simps) (simp add: f1 f2)
      from "1.IH" [OF Some pa [symmetric] Some2 ir [symmetric]]
      have ih1: "odd (length ?xs)" and ih2: "concat ?xs = rest"
        and ih3: "\<forall>i < length ?xs.
          if odd i
          then (\<exists>inner. ?xs ! i = fence @ inner @ fence
                  \<and> find_fence (inner @ fence) = Some (inner, []))
          else codeMatch (?xs ! i) = None"
        by blast+
      from find_fence_Some [OF f1] find_fence_Some [OF f2]
      have s: "s = pre @ fence @ inner @ fence @ rest" by simp
      have c0: "codeMatch pre = None"
        using find_fence_pre [OF f1] by (intro codeMatch_unpaired) simp
      have c1: "find_fence (inner @ fence) = Some (inner, [])"
        using f2 by (rule find_fence_closing)
      have cc: "concat (pre # (fence @ inner @ fence) # ?xs) = pre @ fence @ inner @ fence @ rest"
        using ih2 by simp
      have "concat (split_fences s) = s"
        by (simp only: sp cc s [symmetric])
      moreover have "odd (length (split_fences s))" using ih1 by (simp add: sp)
      moreover have "\<forall>i < length (split_fences s).
          if odd i
          then (\<exists>inner. split_fences s ! i = fence @ inner @ fence
                  \<and> find_fence (inner @ fence) = Some (inner, []))
          else codeMatch (split_fences s ! i) = None"
      proof (intro allI impI)
        fix i
        assume i: "i < length (split_fences s)"
        show "if odd i
          then (\<exists>inner. split_fences s ! i = fence @ inner @ fence
                  \<and> find_fence (inner @ fence) = Some (inner, []))
          else codeMatch (split_fences s ! i) = None"
        proof (cases i)
          case 0
          with c0 show ?thesis by (simp add: sp)
        next
          case (Suc j)
          show ?thesis
          proof (cases j)
            case 0
            with Suc c1 show ?thesis by (auto simp: sp)
          next
            case Suc3: (Suc k)
            with Suc i have "k < length ?xs" by (simp add: sp)
            with ih3 have "if odd k
              then (\<exists>inner. ?xs ! k = fence @ inner @ fence
                      \<and> find_fence (inner @ fence) = Some (inner, []))
              else codeMatch (?xs ! k) = None"
              by blast
            with Suc Suc3 show ?thesis by (simp add: sp)
          qed
        qed
      qed
      ultimately show ?thesis by blast
    qed
  qed
qed

lemma is_code_block_render_part:
  "is_code_block (render_part st msg (i, p)) \<longleftrightarrow> codeMatch p \<noteq> None"
  by (auto simp: render_part_def Let_def split: option.splits)

lemma render_part_plain:
  "codeMatch p = None \<Longrightarrow> render_part st msg (i, p) = FormattedText (renderFormattedLines p)"
  by (simp add: render_part_def)


text \<open>
  How the fences decide the blocks: the result is the pending marker for an empty model
  message while a send is in flight, and otherwise blocks for the parts of the cleaned
  text, which together are that text. The parts at odd positions are exactly the code
  blocks, each a fence, a text and the first fence after it; the parts at even positions,
  the last part among them, are rendered as formatted lines and hold no matched pair of
  fences. A text whose first fence is never closed is a single such part.
\<close>

lemma fences_decide_blocks:
  "(renderMessageContent st msg = Pending \<longleftrightarrow> msg_text msg = [] \<and> isLoading st \<and> msg_role msg = Model)
   \<and> (renderMessageContent st msg \<noteq> Pending \<longrightarrow>
       (\<exists>um bs mm. renderMessageContent st msg = Content um bs mm
          \<and> length bs = length (message_parts msg)
          \<and> odd (length bs)
          \<and> concat (message_parts msg) = trim (strip_directives (msg_text msg))
          \<and> (\<forall>i < length bs.
               (is_code_block (bs ! i) \<longleftrightarrow> odd i)
               \<and> (odd i \<longrightarrow> (\<exists>inner. message_parts msg ! i = fence @ inner @ fence
                                \<and> find_fence (inner @ fence) = Some (inner, [])))
               \<and> (even i \<longrightarrow> bs ! i = FormattedText (renderFormattedLines (message_parts msg ! i))
                                \<and> codeMatch (message_parts msg ! i) = None))))
   \<and> (\<forall>pre after. find_fence (trim (strip_directives (msg_text msg))) = Some (pre, after)
          \<and> find_fence after = None
        \<longrightarrow> message_parts msg = [trim (strip_directives (msg_text msg))])"
proof (intro conjI impI allI)
  show "renderMessageContent st msg = Pending \<longleftrightarrow> msg_text msg = [] \<and> isLoading st \<and> msg_role msg = Model"
    by (simp add: renderMessageContent_def)
next
  assume np: "renderMessageContent st msg \<noteq> Pending"
  let ?parts = "message_parts msg"
  let ?bs = "map (render_part st msg) (enumerate 0 ?parts)"
  note str = split_fences_structure [of "trim (strip_directives (msg_text msg))", folded message_parts_def]
  from np have r: "renderMessageContent st msg
      = Content (if msg_role msg = User then truthy_url (mediaUrl msg) else None) ?bs
          (if msg_role msg = Model \<and> msg_type msg = Some ''image'' then truthy_url (mediaUrl msg)
           else None)"
    by (simp add: renderMessageContent_def split: if_splits)
  have len: "length ?bs = length ?parts" by simp
  have od: "odd (length ?bs)" using str by simp
  have cc: "concat ?parts = trim (strip_directives (msg_text msg))" using str by simp
  have each: "\<forall>i < length ?bs.
               (is_code_block (?bs ! i) \<longleftrightarrow> odd i)
               \<and> (odd i \<longrightarrow> (\<exists>inner. ?parts ! i = fence @ inner @ fence
                                \<and> find_fence (inner @ fence) = Some (inner, [])))
               \<and> (even i \<longrightarrow> ?bs ! i = FormattedText (renderFormattedLines (?parts ! i))
                                \<and> codeMatch (?parts ! i) = None)"
  proof (intro allI impI)
    fix i
    assume "i < length ?bs"
    then have i: "i < length ?parts" by simp
    then have b: "?bs ! i = render_part st msg (i, ?parts ! i)"
      by (simp add: nth_enumerate_eq)
    from str i have s: "if odd i
        then (\<exists>inner. ?parts ! i = fence @ inner @ fence
                \<and> find_fence (inner @ fence) = Some (inner, []))
        else codeMatch (?parts ! i) = None"
      by blast
    show "(is_code_block (?bs ! i) \<longleftrightarrow> odd i)
               \<and> (odd i \<longrightarrow> (\<exists>inner. ?parts ! i = fence @ inner @ fence
                                \<and> find_fence (inner @ fence) = Some (inner, [])))
               \<and> (even i \<longrightarrow> ?bs ! i = FormattedText (renderFormattedLines (?parts ! i))
                                \<and> codeMatch (?parts ! i) = None)"
    proof (cases "odd i")
      case True
      with s obtain inner where p: "?parts ! i = fence @ inner @ fence"
        and f: "find_fence (inner @ fence) = Some (inner, [])"
        by auto
      from p have "codeMatch (?parts ! i) \<noteq> None" by (simp add: codeMatch_closed)
      then have "is_code_block (?bs ! i)"
        unfolding b by (simp add: is_code_block_render_part)
      with True p f show ?thesis by blast
    next
      case False
      with s have c: "codeMatch (?parts ! i) = None" by simp
      then have "\<not> is_code_block (?bs ! i)"
        unfolding b by (simp add: is_code_block_render_part)
      moreover from c have "?bs ! i = FormattedText (renderFormattedLines (?parts ! i))"
        unfolding b by (rule render_part_plain)
      ultimately show ?thesis using False c by blast
    qed
  qed
  from r len od cc each
  show "\<exists>um bs mm. renderMessageContent st msg = Content um bs mm
          \<and> length bs = length (message_parts msg)
          \<and> odd (length bs)
          \<and> concat (message_parts msg) = trim (strip_directives (msg_text msg))
          \<and> (\<forall>i < length bs.
               (is_code_block (bs ! i) \<longleftrightarrow> odd i)
               \<and> (odd i \<longrightarrow> (\<exists>inner. message_parts msg ! i = fence @ inner @ fence
                                \<and> find_fence (inner @ fence) = Some (inner, [])))
               \<and> (even i \<longrightarrow> bs ! i = FormattedText (renderFormattedLines (message_parts msg ! i))
                                \<and> codeMatch (message_parts msg ! i) = None))"
    by blast
next
  fix pre after
  assume "find_fence (trim (strip_directives (msg_text msg))) = Some (pre, after)
          \<and> find_fence after = None"
  then show "message_parts msg = [trim (strip_directives (msg_text msg))]"
    unfolding message_parts_def by (subst split_fences.simps) simp
qed

lemma fences_decide_blocks_example:
  "renderMessageContent example_state fenced_message \<noteq> Pending
   \<and> renderMessageContent example_state fenced_message
       = Content None
           [FormattedText [Line 0 ''a''],
            CodeBlock ''1001-1'' (JString ''script.js'') None,
            FormattedText [Line 0 (''b'' @ fence @ ''c'')]]
           None
   \<and> odd (length (message_parts fenced_message))
   \<and> find_fence (trim (strip_directives (msg_text open_message))) = Some (''see '', ''js\<newline>let x'')
   \<and> find_fence ''js\<newline>let x'' = None
   \<and> message_parts open_message = [''see '' @ fence @ ''js\<newline>let x'']
   \<and> renderMessageContent example_state open_message
       = Content None [FormattedText [Line 0 (''see '' @ fence @ ''js''), Line 0 ''let x'']] None"
proof -
  have e: "renderMessageContent example_state fenced_message
       = Content None
           [FormattedText [Line 0 ''a''],
            CodeBlock ''1001-1'' (JString ''script.js'') None,
            FormattedText [Line 0 (''b'' @ fence @ ''c'')]]
           None"
    by code_simp
  then have np: "renderMessageContent example_state fenced_message \<noteq> Pending" by simp
  note t = fences_decide_blocks [of example_state fenced_message]
  from t [THEN conjunct2, THEN conjunct1, THEN mp, OF np]
  obtain bs :: "block list"
    where "length bs = length (message_parts fenced_message)" and "odd (length bs)"
    by (elim exE conjE)
  then have od: "odd (length (message_parts fenced_message))" by simp
  have c: "trim (strip_directives (msg_text open_message)) = ''see '' @ fence @ ''js\<newline>let x''"
    by code_simp
  have f1: "find_fence (trim (strip_directives (msg_text open_message))) = Some (''see '', ''js\<newline>let x'')"
    by code_simp
  have f2: "find_fence ''js\<newline>let x'' = None"
    by code_simp
  note u = fences_decide_blocks [of example_state open_message]
  from u [THEN conjunct2, THEN conjunct2, THEN spec, THEN spec, THEN mp, OF conjI, OF f1 f2]
  have p: "message_parts open_message = [trim (strip_directives (msg_text open_message))]" .
  have o: "renderMessageContent example_state open_message
       = Content None [FormattedText [Line 0 (''see '' @ fence @ ''js''), Line 0 ''let x'']] None"
    by code_simp
  from np e od f1 f2 p o show ?thesis unfolding c by blast
qed

text \<open>
  Claim C8 holds as far as the fences go (lemma \<open>fences_decide_blocks\<close>), but the
  result is not well-formed for every text. For a reply with a block tagged
  \<open>__proto__\<close> the label of the code block is not a string: it is the object every
  object inherits from, which the label's \<open>span\<close> cannot show as its child, where
  \<open>file.__proto__\<close> was meant.
\<close>

theorem rendering_inherited_label:
  "message_parts proto_message = [] # [fence @ ''__proto__\<newline>x'' @ fence, []]
   \<and> codeMatch (fence @ ''__proto__\<newline>x'' @ fence) = Some (Some ''__proto__'', ''x'')
   \<and> renderMessageContent example_state proto_message
       = Content None
           [FormattedText [Line 0 []],
            CodeBlock ''1005-1'' (JBuiltin ''__proto__'') None,
            FormattedText [Line 0 []]]
           None
   \<and> JBuiltin ''__proto__'' \<noteq> JString ''file.__proto__''"
  by code_simp

end
